theory Spec2Isabelle
  imports Complex_Main "HOL-Library.AList"
begin

section \<open>gitown: code ownership from blame data, merged into a CODEOWNERS manifest\<close>

text \<open>
  A shallow embedding of \<^verbatim>\<open>src/gitown/gitown.py\<close>. The class
  \<^verbatim>\<open>CodeOwnersUpdater\<close> becomes a record, its methods become functions that take the
  record and return it updated, and an exception that ends a run is a value of \<open>error\<close>:
  a manifest or an alias file that is missing, an alias file that does not parse, a
  threshold that is not a number, a failing \<^verbatim>\<open>git blame\<close>, the exception of the debug flag.
  Opening the manifest for writing and listing the tracked files are taken to succeed.

  Conventions of the embedding:
  \<^item> a Python \<^verbatim>\<open>dict\<close> is an association list with distinct keys, in insertion order;
    \<open>dict_set\<close> replaces the value of a present key in place and appends an absent one, as
    an assignment \<^verbatim>\<open>d[k] = v\<close> does;
  \<^item> a Python \<^verbatim>\<open>float\<close> is the rational number it denotes, and every operation on floats
    rounds its exact result to the nearest binary64 number, ties to the even significand,
    as IEEE 754 arithmetic and the true division of two \<^verbatim>\<open>int\<close>s do. Infinities are left
    out: a \<^verbatim>\<open>str\<close> and a \<^verbatim>\<open>dict\<close> hold fewer than \<open>2\<^sup>6\<^sup>3\<close> items, which keeps every
    quotient, product and sum of the source far below the largest binary64 number;
  \<^item> a text file is the list of its lines, without the line terminators;
  \<^item> what the source prints is left out: \<^verbatim>\<open>verbose\<close> only selects what is printed.
\<close>

subsection \<open>Dictionaries\<close>

definition dict_get :: "('k \<times> 'v) list \<Rightarrow> 'k \<Rightarrow> 'v \<Rightarrow> 'v" where
  "dict_get d k dflt = (case map_of d k of None \<Rightarrow> dflt | Some v \<Rightarrow> v)"

definition dict_set :: "('k \<times> 'v) list \<Rightarrow> 'k \<Rightarrow> 'v \<Rightarrow> ('k \<times> 'v) list" where
  "dict_set d k v = AList.update k v d"

text \<open>
  Equality of two dicts in Python: the same number of items, and every key of the first is
  a key of the second with an equal value. The order of insertion plays no part.
\<close>

definition dict_eq :: "('k \<times> 'v) list \<Rightarrow> ('k \<times> 'v) list \<Rightarrow> bool" where
  "dict_eq a b = (length a = length b \<and> list_all (\<lambda>(k, v). map_of b k = Some v) a)"

subsection \<open>Floats\<close>

text \<open>\<^verbatim>\<open>int.bit_length\<close>, for a number that is not negative.\<close>

function bit_length :: "int \<Rightarrow> int" where
  "bit_length n = (if n \<le> 0 then 0 else 1 + bit_length (n div 2))"
  by pat_completeness auto
termination
  by (relation "measure nat") auto

declare bit_length.simps [simp del]

definition pow2 :: "int \<Rightarrow> rat" where
  "pow2 k = (if 0 \<le> k then of_int (2 ^ nat k) else 1 / of_int (2 ^ nat (- k)))"

text \<open>
  The binary exponent of a positive rational \<open>x\<close>, the \<open>e\<close> with \<open>2\<^sup>e \<le> x < 2\<^sup>e\<^sup>+\<^sup>1\<close>: the bit
  lengths of numerator and denominator give it up to one, and a comparison decides.
\<close>

definition exponent :: "rat \<Rightarrow> int" where
  "exponent x =
     (let (p, q) = quotient_of x;
          d = bit_length p - bit_length q
      in if pow2 d \<le> x then d else d - 1)"

definition round_half_even :: "rat \<Rightarrow> int" where
  "round_half_even m =
     (let f = \<lfloor>m\<rfloor>; r = m - of_int f
      in if r < 1 / 2 then f else if 1 / 2 < r then f + 1 else if even f then f else f + 1)"

text \<open>
  Rounding to binary64: 53 significant bits, the least exponent \<open>-1022\<close>, below which the
  spacing of the numbers stays \<open>2\<^sup>-\<^sup>1\<^sup>0\<^sup>7\<^sup>4\<close>.
\<close>

definition round_double :: "rat \<Rightarrow> rat" where
  "round_double x =
     (if x = 0 then 0
      else let a = \<bar>x\<bar>; k = max (exponent a) (- 1022) - 52
           in sgn x * of_int (round_half_even (a / pow2 k)) * pow2 k)"

text \<open>
  \<^verbatim>\<open>a / b\<close> on two \<^verbatim>\<open>int\<close>s with \<open>b\<close> not zero, \<^verbatim>\<open>x * y\<close> and \<^verbatim>\<open>x + y\<close> on floats. An
  \<^verbatim>\<open>int\<close> operand of a float operation is converted first; the source only has the
  operands \<open>0\<close> and \<open>100\<close>, which convert exactly.
\<close>

definition int_truediv :: "int \<Rightarrow> int \<Rightarrow> rat" where
  "int_truediv a b = round_double (of_int a / of_int b)"

definition float_mul :: "rat \<Rightarrow> rat \<Rightarrow> rat" where
  "float_mul x y = round_double (x * y)"

definition float_add :: "rat \<Rightarrow> rat \<Rightarrow> rat" where
  "float_add x y = round_double (x + y)"

subsection \<open>Strings\<close>

text \<open>
  \<^verbatim>\<open>str.count(sub)\<close>: the number of non-overlapping occurrences of \<open>sub\<close>, scanning from
  the left; for the empty \<open>sub\<close> it is the length plus one.
\<close>

function str_count :: "string \<Rightarrow> string \<Rightarrow> nat" where
  "str_count s sub =
     (if sub = [] then length s + 1
      else if length s < length sub then 0
      else if take (length sub) s = sub then 1 + str_count (drop (length sub) s) sub
      else str_count (tl s) sub)"
  by pat_completeness auto
termination
proof (relation "measure (\<lambda>(s, sub). length s)")
  fix s sub :: string
  assume "sub \<noteq> []" "\<not> length s < length sub"
  then have "0 < length sub" "0 < length s"
    by (cases sub; cases s; simp)+
  then show "((drop (length sub) s, sub), s, sub) \<in> measure (\<lambda>(s, sub). length s)"
    and "((tl s, sub), s, sub) \<in> measure (\<lambda>(s, sub). length s)"
    by simp_all
qed simp

declare str_count.simps [simp del]

definition newline :: string where
  "newline = [CHR 0x0A]"

text \<open>
  One row of \<^verbatim>\<open>csv.reader(csvfile, delimiter=" ")\<close>: an empty line gives the row with no
  field, any other line is cut at every space. \<^verbatim>\<open>csv.writer(csvfile, delimiter=" ")\<close>
  joins the fields with one space. The quoting of the csv module (fields holding a double
  quote, a space or a line break) is not modelled.
\<close>

fun split_on :: "char \<Rightarrow> string \<Rightarrow> string list" where
  "split_on d [] = [[]]"
| "split_on d (c # cs) =
     (if c = d then [] # split_on d cs
      else (case split_on d cs of [] \<Rightarrow> [[c]] | f # fs \<Rightarrow> (c # f) # fs))"

definition csv_reader_row :: "string \<Rightarrow> string list" where
  "csv_reader_row line = (if line = [] then [] else split_on (CHR '' '') line)"

fun csv_writer_row :: "string list \<Rightarrow> string" where
  "csv_writer_row [] = []"
| "csv_writer_row [f] = f"
| "csv_writer_row (f # g # fs) = f @ CHR '' '' # csv_writer_row (g # fs)"

subsection \<open>The updater object and its environment\<close>

datatype error =
  FileNotFoundError
| BlameFailure
| ValueError
| GitownrcMissing
| JSONDecodeError
| DebugException

text \<open>
  The fields \<^verbatim>\<open>__init__\<close> sets, followed by the environment the object acts on: the files
  on disk, the table of \<^verbatim>\<open>lru_cache\<close> behind \<^verbatim>\<open>get_blame_file_content\<close>, the log of the
  invocations of \<^verbatim>\<open>git blame\<close> and the log of the files opened for writing.
\<close>

record updater =
  files :: "string list"
  original_codeowner_data :: "(string \<times> string list) list"
  updated_codeowner_data :: "(string \<times> string list) list"
  optimized_codeowner_data :: "(string \<times> string list) list"
  updated :: bool
  owners :: "(string \<times> string) list"
  ownership_threshold :: rat
  codeowners_file :: string
  disk :: "string \<rightharpoonup> string list"
  blame_cache :: "(string \<times> string) list"
  blame_calls :: "string list"
  writes :: "string list"

definition DEFAULT_CODEOWNERS_FILE :: string where
  "DEFAULT_CODEOWNERS_FILE = ''CODEOWNERS''"

definition DEFAULT_OWNERSHIP_THRESHOLD :: int where
  "DEFAULT_OWNERSHIP_THRESHOLD = 25"

subsection \<open>Loading the manifest\<close>

text \<open>
  The loop of \<^verbatim>\<open>__init__\<close> over the rows: \<^verbatim>\<open>row[0]\<close> of a row with no field raises
  IndexError, which the source catches to skip the row; a row whose first field is the
  one-character text \<^verbatim>\<open>#\<close> is skipped; any other row is stored.
\<close>

fun load_rows ::
  "string list list \<Rightarrow> (string \<times> string list) list \<Rightarrow> (string \<times> string list) list" where
  "load_rows [] d = d"
| "load_rows ([] # rows) d = load_rows rows d"
| "load_rows ((f # fs) # rows) d =
     (if f = ''#'' then load_rows rows d else load_rows rows (dict_set d f fs))"

definition init ::
  "string list \<Rightarrow> (string \<times> string) list \<Rightarrow> rat \<Rightarrow> string \<Rightarrow> (string \<rightharpoonup> string list)
     \<Rightarrow> error + updater" where
  "init fs ows threshold codeowners_filename dsk =
     (case dsk codeowners_filename of
        None \<Rightarrow> Inl FileNotFoundError
      | Some lines \<Rightarrow>
          Inr \<lparr> files = fs,
                original_codeowner_data = load_rows (map csv_reader_row lines) [],
                updated_codeowner_data = [],
                optimized_codeowner_data = [],
                updated = False,
                owners = ows,
                ownership_threshold = threshold,
                codeowners_file = codeowners_filename,
                disk = dsk,
                blame_cache = [],
                blame_calls = [],
                writes = [] \<rparr>)"

subsection \<open>Ownership of one file\<close>

text \<open>
  \<^verbatim>\<open>get_blame_file_content\<close> under \<^verbatim>\<open>lru_cache\<close>: a path in the table is answered from
  the table; any other path invokes \<^verbatim>\<open>git blame\<close> (the parameter \<open>run_blame\<close>, \<open>None\<close>
  when the command fails), and a result that is returned is stored. A failure is not
  stored and is raised to the caller.
\<close>

definition get_blame_file_content ::
  "(string \<Rightarrow> string option) \<Rightarrow> string \<Rightarrow> updater \<Rightarrow> (error + string) \<times> updater" where
  "get_blame_file_content run_blame filename s =
     (case map_of (blame_cache s) filename of
        Some content \<Rightarrow> (Inr content, s)
      | None \<Rightarrow>
          (case run_blame filename of
             None \<Rightarrow> (Inl BlameFailure, s\<lparr>blame_calls := blame_calls s @ [filename]\<rparr>)
           | Some content \<Rightarrow>
               (Inr content,
                s\<lparr>blame_cache := dict_set (blame_cache s) filename content,
                  blame_calls := blame_calls s @ [filename]\<rparr>)))"

definition frequency_percentage :: "string \<Rightarrow> string \<Rightarrow> rat" where
  "frequency_percentage blame_file_content committer_email =
     (let total_lines = str_count blame_file_content newline;
          total_lines_by_committer = str_count blame_file_content committer_email
      in if total_lines \<noteq> 0
         then float_mul (int_truediv (int total_lines_by_committer) (int total_lines)) 100
         else 0)"

definition get_committer_line_frequency_percentage ::
  "(string \<Rightarrow> string option) \<Rightarrow> string \<Rightarrow> string \<Rightarrow> updater \<Rightarrow> (error + rat) \<times> updater" where
  "get_committer_line_frequency_percentage run_blame committer_email filename s =
     (case get_blame_file_content run_blame filename s of
        (Inl e, s') \<Rightarrow> (Inl e, s')
      | (Inr blame_file_content, s') \<Rightarrow>
          (Inr (frequency_percentage blame_file_content committer_email), s'))"

text \<open>The loop of \<^verbatim>\<open>get_committers_for_file\<close> over the items of the alias table.\<close>

fun committer_line_frequency_map ::
  "(string \<Rightarrow> string option) \<Rightarrow> string \<Rightarrow> (string \<times> string) list \<Rightarrow> (string \<times> rat) list
     \<Rightarrow> updater \<Rightarrow> (error + (string \<times> rat) list) \<times> updater" where
  "committer_line_frequency_map run_blame filename [] m s = (Inr m, s)"
| "committer_line_frequency_map run_blame filename ((key, val) # rest) m s =
     (case get_committer_line_frequency_percentage run_blame key filename s of
        (Inl e, s') \<Rightarrow> (Inl e, s')
      | (Inr commiter_frequency, s') \<Rightarrow>
          committer_line_frequency_map run_blame filename rest
            (dict_set m val (float_add (dict_get m val 0) commiter_frequency)) s')"

text \<open>
  \<^verbatim>\<open>sorted(..., key=...)\<close> is a stable sort, and so is \<open>sort_key\<close>: both give the one
  ordering by key that keeps equal keys in their order.
\<close>

definition get_committers_for_file ::
  "(string \<Rightarrow> string option) \<Rightarrow> string \<Rightarrow> updater \<Rightarrow> (error + string list) \<times> updater" where
  "get_committers_for_file run_blame filename s =
     (case committer_line_frequency_map run_blame filename (owners s) [] s of
        (Inl e, s') \<Rightarrow> (Inl e, s')
      | (Inr m, s') \<Rightarrow>
          (Inr (map fst (filter (\<lambda>a. ownership_threshold s < snd a) (sort_key snd m))), s'))"

subsection \<open>Reconciling the manifest\<close>

text \<open>The first loop of \<^verbatim>\<open>check_files\<close>: a file with no committer above the threshold is ignored.\<close>

fun codeowners_data_loop ::
  "(string \<Rightarrow> string option) \<Rightarrow> string list \<Rightarrow> (string \<times> string list) list \<Rightarrow> updater
     \<Rightarrow> (error + (string \<times> string list) list) \<times> updater" where
  "codeowners_data_loop run_blame [] codeowners_data s = (Inr codeowners_data, s)"
| "codeowners_data_loop run_blame (file # rest) codeowners_data s =
     (case get_committers_for_file run_blame file s of
        (Inl e, s') \<Rightarrow> (Inl e, s')
      | (Inr file_committers, s') \<Rightarrow>
          codeowners_data_loop run_blame rest
            (if file_committers \<noteq> [] then dict_set codeowners_data file file_committers
             else codeowners_data) s')"

text \<open>The second loop: every entry of the original manifest, with the fresh owners if there are any.\<close>

definition carry_forward ::
  "(string \<times> string list) list \<Rightarrow> (string \<times> string list) list \<Rightarrow> (string \<times> string list) list
     \<Rightarrow> (string \<times> string list) list" where
  "carry_forward original codeowners_data upd =
     fold (\<lambda>(key, val) u. dict_set u key (dict_get codeowners_data key val)) original upd"

text \<open>The third loop: a fresh entry is stored unless it shares an owner with the splat.\<close>

definition insert_fresh ::
  "string list \<Rightarrow> (string \<times> string list) list \<Rightarrow> (string \<times> string list) list
     \<Rightarrow> (string \<times> string list) list" where
  "insert_fresh splat codeowners_data upd =
     fold (\<lambda>(key, val) u. if set val \<inter> set splat = {} then dict_set u key val else u)
       codeowners_data upd"

text \<open>The dict comprehension that builds \<^verbatim>\<open>optimized_codeowner_data\<close>.\<close>

definition optimize ::
  "string list \<Rightarrow> (string \<times> string list) list \<Rightarrow> (string \<times> string list) list" where
  "optimize splat upd =
     filter (\<lambda>(key, val). key = ''*'' \<or> set val \<inter> set splat = {}) upd"

definition header :: "string list" where
  "header =
     [''# Lines starting with '' @ [CHR 0x27] @ ''#'' @ [CHR 0x27] @ '' are comments.'',
      ''# Each line is a file pattern followed by one or more owners.'',
      ''# These owners will be the default owners for everything in the repo.'',
      ''# * <@insert_github_username>'',
      ''#'',
      ''# Order is important. The last matching pattern has the most precedence.'',
      [],
      [],
      ''# This file is also being managed automatically by the gitown tool.'']"

text \<open>
  \<^verbatim>\<open>update_file\<close>: the file is opened for writing, and \<^verbatim>\<open>self.updated\<close> set, only when
  the data differ from the original as dicts.
\<close>

definition update_file :: "(string \<times> string list) list \<Rightarrow> updater \<Rightarrow> updater" where
  "update_file updated_data s =
     (if \<not> dict_eq updated_data (original_codeowner_data s)
      then s\<lparr>disk := (disk s)(codeowners_file s \<mapsto>
                 header @ map (\<lambda>(key, val). csv_writer_row (key # val)) updated_data),
             writes := writes s @ [codeowners_file s],
             updated := True\<rparr>
      else s)"

text \<open>The rest of \<^verbatim>\<open>check_files\<close>, from the fresh ownership on.\<close>

definition reconcile :: "(string \<times> string list) list \<Rightarrow> updater \<Rightarrow> updater" where
  "reconcile codeowners_data s =
     (let upd_a = carry_forward (original_codeowner_data s) codeowners_data
                    (updated_codeowner_data s);
          splat = dict_get upd_a ''*'' [];
          upd_b = insert_fresh splat codeowners_data upd_a;
          s' = s\<lparr>updated_codeowner_data := upd_b,
                 optimized_codeowner_data := optimize splat upd_b\<rparr>
      in update_file (optimized_codeowner_data s') s')"

definition check_files ::
  "(string \<Rightarrow> string option) \<Rightarrow> string list \<Rightarrow> updater \<Rightarrow> (error + unit) \<times> updater" where
  "check_files run_blame fs s =
     (case codeowners_data_loop run_blame fs [] s of
        (Inl e, s') \<Rightarrow> (Inl e, s')
      | (Inr codeowners_data, s') \<Rightarrow> (Inr (), reconcile codeowners_data s'))"

text \<open>The method \<^verbatim>\<open>CodeOwnersUpdater.main\<close>.\<close>

definition updater_main ::
  "(string \<Rightarrow> string option) \<Rightarrow> updater \<Rightarrow> (error + int) \<times> updater" where
  "updater_main run_blame s =
     (case check_files run_blame (files s) s of
        (Inl e, s') \<Rightarrow> (Inl e, s')
      | (Inr u, s') \<Rightarrow> (Inr (if updated s' then 1 else 0), s'))"

subsection \<open>The command line\<close>

text \<open>
  The arguments after \<^verbatim>\<open>parse_args\<close>. The text of \<^verbatim>\<open>--ownership_threshold\<close> is kept by
  what \<^verbatim>\<open>int(args.ownership_threshold or DEFAULT_OWNERSHIP_THRESHOLD)\<close> does with it:
  an absent or empty text selects the default, a text that \<^verbatim>\<open>int\<close> reads gives its value,
  any other text raises ValueError. The file \<^verbatim>\<open>.gitownrc\<close> is kept by what reading and
  parsing it gives.
\<close>

datatype threshold_text = NoText | IntText int | BadText

datatype gitownrc = Missing | Unparsable | Table "(string \<times> string) list"

record args =
  filenames :: "string list"
  ownership_threshold_arg :: threshold_text
  codeowners_filename_arg :: "string option"
  debug :: bool

text \<open>
  The function \<^verbatim>\<open>main\<close> of the module. It has no \<^verbatim>\<open>return\<close> statement: the value of
  \<^verbatim>\<open>codeowners.main()\<close> is dropped and the function returns \<^verbatim>\<open>None\<close>. The result is
  paired with the files on disk at the end.
\<close>

definition main ::
  "(string \<Rightarrow> string option) \<Rightarrow> string list \<Rightarrow> gitownrc \<Rightarrow> (string \<rightharpoonup> string list) \<Rightarrow> args
     \<Rightarrow> (error + int option) \<times> (string \<rightharpoonup> string list)" where
  "main run_blame get_all_files rc dsk a =
     (case ownership_threshold_arg a of
        BadText \<Rightarrow> (Inl ValueError, dsk)
      | threshold_arg \<Rightarrow>
          (let threshold = (case threshold_arg of IntText n \<Rightarrow> n
                            | _ \<Rightarrow> DEFAULT_OWNERSHIP_THRESHOLD);
               fs = (if length (filenames a) = 0 then get_all_files else filenames a)
           in case rc of
                Missing \<Rightarrow> (Inl GitownrcMissing, dsk)
              | Unparsable \<Rightarrow> (Inl JSONDecodeError, dsk)
              | Table ows \<Rightarrow>
                  (case init fs ows (of_int threshold)
                          (case codeowners_filename_arg a of
                             None \<Rightarrow> DEFAULT_CODEOWNERS_FILE
                           | Some n \<Rightarrow> if n = [] then DEFAULT_CODEOWNERS_FILE else n) dsk of
                     Inl e \<Rightarrow> (Inl e, dsk)
                   | Inr codeowners \<Rightarrow>
                       (case updater_main run_blame codeowners of
                          (Inl e, s') \<Rightarrow> (Inl e, disk s')
                        | (Inr r, s') \<Rightarrow>
                            if debug a then (Inl DebugException, disk s')
                            else (Inr None, disk s')))))"

text \<open>
  \<^verbatim>\<open>sys.exit(main())\<close>: the status of the process is 0 for \<^verbatim>\<open>None\<close>, the number for a
  number, and 1 when an exception leaves \<^verbatim>\<open>main\<close>.
\<close>

fun sys_exit :: "error + int option \<Rightarrow> int" where
  "sys_exit (Inl e) = 1"
| "sys_exit (Inr None) = 0"
| "sys_exit (Inr (Some n)) = n"

subsection \<open>Auxiliary notions for the theorems\<close>

text \<open>
  What the loop of \<^verbatim>\<open>get_committers_for_file\<close> computes once the blame text \<open>content\<close> of
  the file is known, and the owners the method then returns.
\<close>

definition frequency_map ::
  "string \<Rightarrow> (string \<times> string) list \<Rightarrow> (string \<times> rat) list \<Rightarrow> (string \<times> rat) list" where
  "frequency_map content ows m =
     fold (\<lambda>(key, val) m.
             dict_set m val (float_add (dict_get m val 0) (frequency_percentage content key)))
       ows m"

definition committers_of :: "string \<Rightarrow> (string \<times> string) list \<Rightarrow> rat \<Rightarrow> string list" where
  "committers_of content ows threshold =
     map fst (filter (\<lambda>a. threshold < snd a) (sort_key snd (frequency_map content ows [])))"

text \<open>The elements of a list in the order in which they first occur.\<close>

definition first_occurrences :: "'a list \<Rightarrow> 'a list" where
  "first_occurrences xs = fold (\<lambda>x acc. if x \<in> set acc then acc else acc @ [x]) xs []"

text \<open>
  The blame text a lookup of the path \<open>f\<close> gives in the state \<open>s\<close>: the cached one if there
  is one, else what \<^verbatim>\<open>git blame\<close> returns.
\<close>

definition blame_content :: "(string \<Rightarrow> string option) \<Rightarrow> updater \<Rightarrow> string \<Rightarrow> string option" where
  "blame_content run_blame s f =
     (case map_of (blame_cache s) f of Some content \<Rightarrow> Some content | None \<Rightarrow> run_blame f)"

text \<open>Every path \<^verbatim>\<open>git blame\<close> was invoked for is in the table of the cache.\<close>

definition calls_cached :: "updater \<Rightarrow> bool" where
  "calls_cached s =
     (distinct (blame_calls s) \<and> list_all (\<lambda>f. map_of (blame_cache s) f \<noteq> None) (blame_calls s))"

subsection \<open>A small repository to evaluate the model on\<close>

text \<open>
  The blame text of \<^verbatim>\<open>foo.py\<close> has four lines, three by \<^verbatim>\<open>a@x\<close> and one by \<^verbatim>\<open>b@x\<close>,
  and so has that of the file whose name is an asterisk; that of \<^verbatim>\<open>empty.py\<close> is empty;
  \<^verbatim>\<open>git blame\<close> fails on a path that has no text here.
\<close>

definition example_foo_blame :: string where
  "example_foo_blame =
     ''<a@x>'' @ newline @ ''<a@x>'' @ newline @ ''<a@x>'' @ newline @ ''<b@x>'' @ newline"

text \<open>
  Three more blame texts: \<^verbatim>\<open>tie.py\<close> has five lines, two by \<^verbatim>\<open>b@x\<close>, two by \<^verbatim>\<open>a@x\<close>
  and one by \<^verbatim>\<open>c@x\<close>; \<^verbatim>\<open>six.py\<close> has six lines, three by \<^verbatim>\<open>b@x\<close>, one by \<^verbatim>\<open>a1@x\<close>
  and two by \<^verbatim>\<open>a2@x\<close>; \<^verbatim>\<open>twenty.py\<close> has twenty lines, eleven by \<^verbatim>\<open>a@x\<close> and nine by
  \<^verbatim>\<open>b@x\<close>.
\<close>

definition example_tie_blame :: string where
  "example_tie_blame =
     ''<b@x>'' @ newline @ ''<a@x>'' @ newline @ ''<b@x>'' @ newline @ ''<a@x>'' @ newline
     @ ''<c@x>'' @ newline"

definition example_six_blame :: string where
  "example_six_blame =
     ''<b@x>'' @ newline @ ''<b@x>'' @ newline @ ''<b@x>'' @ newline @ ''<a1@x>'' @ newline
     @ ''<a2@x>'' @ newline @ ''<a2@x>'' @ newline"

definition example_twenty_blame :: string where
  "example_twenty_blame =
     concat (replicate 11 (''<a@x>'' @ newline)) @ concat (replicate 9 (''<b@x>'' @ newline))"

definition example_blame :: "string \<Rightarrow> string option" where
  "example_blame f =
     (if f = ''foo.py'' then Some example_foo_blame
      else if f = ''*'' then Some example_foo_blame
      else if f = ''empty.py'' then Some []
      else if f = ''tie.py'' then Some example_tie_blame
      else if f = ''six.py'' then Some example_six_blame
      else if f = ''twenty.py'' then Some example_twenty_blame
      else None)"

definition example_owners :: "(string \<times> string) list" where
  "example_owners = [(''a@x'', ''alice''), (''b@x'', ''bob'')]"

definition example_updater ::
  "string list \<Rightarrow> rat \<Rightarrow> (string \<times> string list) list \<Rightarrow> updater" where
  "example_updater fs threshold original =
     \<lparr> files = fs,
       original_codeowner_data = original,
       updated_codeowner_data = [],
       optimized_codeowner_data = [],
       updated = False,
       owners = example_owners,
       ownership_threshold = threshold,
       codeowners_file = ''CODEOWNERS'',
       disk = Map.empty,
       blame_cache = [],
       blame_calls = [],
       writes = [] \<rparr>"

definition example_run :: "string list \<Rightarrow> rat \<Rightarrow> (string \<times> string list) list \<Rightarrow> updater" where
  "example_run fs threshold original =
     snd (check_files example_blame fs (example_updater fs threshold original))"

section \<open>Lemmas\<close>

subsection \<open>Rounding to binary64\<close>

text \<open>
  \<open>round_double x\<close> is a multiple of the spacing \<open>2\<^sup>k\<close> of the binary64 numbers around
  \<open>x\<close>, at most half a spacing away from \<open>x\<close>, and above the least exponent the quotient of
  \<open>x\<close> by the spacing has 53 bits.
\<close>

lemma round_half_even_nearest: "\<bar>of_int (round_half_even m) - m\<bar> \<le> 1 / 2"
proof -
  have "of_int \<lfloor>m\<rfloor> \<le> m" "m < of_int \<lfloor>m\<rfloor> + 1"
    by linarith+
  then show ?thesis
    by (auto simp: round_half_even_def Let_def)
qed

lemma bit_length_nonneg: "0 \<le> bit_length n"
  by (induction n rule: bit_length.induct) (subst bit_length.simps, simp)

lemma bit_length_bounds:
  "0 < n \<Longrightarrow> 2 ^ nat (bit_length n - 1) \<le> n \<and> n < 2 ^ nat (bit_length n)"
proof (induction n rule: bit_length.induct)
  case (1 n)
  show ?case
  proof (cases "n = 1")
    case True
    then show ?thesis
      by (simp add: bit_length.simps [of 1] bit_length.simps [of 0])
  next
    case False
    with "1.prems" have h: "0 < n div 2" by simp
    have b: "bit_length n = 1 + bit_length (n div 2)"
      using "1.prems" by (subst bit_length.simps) simp
    from "1.IH" h "1.prems" have ih:
      "2 ^ nat (bit_length (n div 2) - 1) \<le> n div 2" "n div 2 < 2 ^ nat (bit_length (n div 2))"
      by simp_all
    have pos: "0 < bit_length (n div 2)"
      using h bit_length_nonneg [of "n div 2 div 2"] by (subst bit_length.simps) simp
    have e1: "nat (bit_length n - 1) = Suc (nat (bit_length (n div 2) - 1))"
      using pos by (simp add: b nat_diff_distrib)
    have e2: "nat (bit_length n) = Suc (nat (bit_length (n div 2)))"
      using pos by (simp add: b nat_add_distrib)
    show ?thesis
      unfolding e1 e2 using ih by simp linarith
  qed
qed


lemma pow2_power_int: "pow2 k = 2 powi k"
  by (simp add: pow2_def power_int_def field_simps)

lemma exponent_bounds:
  assumes "0 < x"
  shows "pow2 (exponent x) \<le> x \<and> x < pow2 (exponent x + 1)"
proof -
  obtain p q where pq: "quotient_of x = (p, q)"
    by (cases "quotient_of x")
  from pq have q: "0 < q"
    by (rule quotient_of_denom_pos)
  from pq have x: "x = of_int p / of_int q"
    by (rule quotient_of_div)
  from assms q have p: "0 < p"
    by (simp add: x zero_less_divide_iff)
  let ?bp = "bit_length p" and ?bq = "bit_length q"
  let ?d = "?bp - ?bq"
  have bp: "0 < ?bp" and bq: "0 < ?bq"
    using p q bit_length_nonneg [of "p div 2"] bit_length_nonneg [of "q div 2"]
    by (subst bit_length.simps, simp)+
  have P: "(2::rat) powi (?bp - 1) \<le> of_int p" "of_int p < (2::rat) powi ?bp"
  proof -
    from bit_length_bounds [OF p]
    have "(of_int (2 ^ nat (?bp - 1)) :: rat) \<le> of_int p" "(of_int p :: rat) < of_int (2 ^ nat ?bp)"
      by (simp_all only: of_int_le_iff of_int_less_iff)
    then show "(2::rat) powi (?bp - 1) \<le> of_int p" "of_int p < (2::rat) powi ?bp"
      using bp by (simp_all add: power_int_def)
  qed
  have Q: "(2::rat) powi (?bq - 1) \<le> of_int q" "of_int q < (2::rat) powi ?bq"
  proof -
    from bit_length_bounds [OF q]
    have "(of_int (2 ^ nat (?bq - 1)) :: rat) \<le> of_int q" "(of_int q :: rat) < of_int (2 ^ nat ?bq)"
      by (simp_all only: of_int_le_iff of_int_less_iff)
    then show "(2::rat) powi (?bq - 1) \<le> of_int q" "of_int q < (2::rat) powi ?bq"
      using bq by (simp_all add: power_int_def)
  qed
  have qpos: "(0::rat) < of_int q" using q by simp
  have up: "x < 2 powi (?d + 1)"
  proof -
    have "of_int p < (2::rat) powi ?bp" by (rule P(2))
    also have "\<dots> = 2 powi (?d + 1) * 2 powi (?bq - 1)"
      by (simp add: power_int_add [symmetric])
    also have "\<dots> \<le> 2 powi (?d + 1) * of_int q"
      using Q(1) by (intro mult_left_mono) simp_all
    finally show ?thesis
      using qpos by (simp add: x pos_divide_less_eq)
  qed
  have lo: "2 powi (?d - 1) < x"
  proof -
    have "(2::rat) powi (?d - 1) * of_int q < 2 powi (?d - 1) * 2 powi ?bq"
      using Q(2) by (intro mult_strict_left_mono) simp_all
    also have "\<dots> = 2 powi (?bp - 1)"
      by (simp add: power_int_add [symmetric])
    also have "\<dots> \<le> of_int p" by (rule P(1))
    finally show ?thesis
      using qpos by (simp add: x pos_less_divide_eq)
  qed
  have e: "exponent x = (if pow2 ?d \<le> x then ?d else ?d - 1)"
    by (simp add: exponent_def pq)
  show ?thesis
    using up lo by (auto simp: e pow2_power_int)
qed


lemma pow2_pos: "0 < pow2 k"
  by (simp add: pow2_power_int)

lemma round_double_nearest:
  assumes "x \<noteq> 0"
  shows "\<exists>n. round_double x = of_int n * pow2 (max (exponent \<bar>x\<bar>) (- 1022) - 52)"
    and "\<bar>round_double x - x\<bar> \<le> pow2 (max (exponent \<bar>x\<bar>) (- 1022) - 52) / 2"
proof -
  let ?k = "max (exponent \<bar>x\<bar>) (- 1022) - 52"
  let ?r = "round_half_even (\<bar>x\<bar> / pow2 ?k)"
  have rd: "round_double x = sgn x * of_int ?r * pow2 ?k"
    using assms by (simp add: round_double_def Let_def)
  have "round_double x = of_int (sgn (if 0 < x then 1 else - 1) * ?r) * pow2 ?k"
    using assms by (simp add: rd sgn_if)
  then show "\<exists>n. round_double x = of_int n * pow2 ?k"
    by blast
  have p: "0 < pow2 ?k" by (rule pow2_pos)
  have x: "x = sgn x * \<bar>x\<bar>"
    by (simp add: sgn_if)
  have "\<bar>round_double x - x\<bar> = \<bar>sgn x * (of_int ?r * pow2 ?k - \<bar>x\<bar>)\<bar>"
    by (subst (2) x) (simp add: rd algebra_simps)
  also have "\<dots> = \<bar>of_int ?r * pow2 ?k - \<bar>x\<bar>\<bar>"
    using assms by (simp add: abs_mult sgn_if)
  also have "\<dots> = \<bar>of_int ?r - \<bar>x\<bar> / pow2 ?k\<bar> * pow2 ?k"
  proof -
    have "\<bar>of_int ?r - \<bar>x\<bar> / pow2 ?k\<bar> * pow2 ?k
            = \<bar>(of_int ?r - \<bar>x\<bar> / pow2 ?k) * pow2 ?k\<bar>"
      using p by (simp add: abs_mult)
    also have "(of_int ?r - \<bar>x\<bar> / pow2 ?k) * pow2 ?k = of_int ?r * pow2 ?k - \<bar>x\<bar>"
      using p by (simp add: left_diff_distrib)
    finally show ?thesis by simp
  qed
  also have "\<dots> \<le> (1 / 2) * pow2 ?k"
    using p round_half_even_nearest [of "\<bar>x\<bar> / pow2 ?k"] by (intro mult_right_mono) simp_all
  finally show "\<bar>round_double x - x\<bar> \<le> pow2 ?k / 2"
    by simp
qed

lemma significand_range:
  assumes "x \<noteq> 0" and "- 1022 \<le> exponent \<bar>x\<bar>"
  shows "2 ^ 52 \<le> \<bar>x\<bar> / pow2 (max (exponent \<bar>x\<bar>) (- 1022) - 52)"
    and "\<bar>x\<bar> / pow2 (max (exponent \<bar>x\<bar>) (- 1022) - 52) < 2 ^ 53"
proof -
  let ?e = "exponent \<bar>x\<bar>"
  have k: "max ?e (- 1022) - 52 = ?e - 52"
    using assms(2) by simp
  from assms(1) have "0 < \<bar>x\<bar>" by simp
  from exponent_bounds [OF this] have b: "2 powi ?e \<le> \<bar>x\<bar>" "\<bar>x\<bar> < 2 powi (?e + 1)"
    by (simp_all add: pow2_power_int)
  have p: "(0::rat) < 2 powi (?e - 52)" by simp
  have "(2::rat) ^ 52 * 2 powi (?e - 52) = 2 powi ?e"
    by (simp add: power_int_diff)
  with b(1) p show "2 ^ 52 \<le> \<bar>x\<bar> / pow2 (max ?e (- 1022) - 52)"
    unfolding k pow2_power_int by (simp add: pos_le_divide_eq)
  have "(2::rat) ^ 53 * 2 powi (?e - 52) = 2 powi (?e + 1)"
    by (simp add: power_int_diff power_int_add)
  with b(2) p show "\<bar>x\<bar> / pow2 (max ?e (- 1022) - 52) < 2 ^ 53"
    unfolding k pow2_power_int by (simp add: pos_divide_less_eq)
qed

subsection \<open>Dictionaries and the frequency loop\<close>

lemma map_of_dict_set: "map_of (dict_set d k v) = (map_of d)(k \<mapsto> v)"
  by (simp add: dict_set_def update_conv')

lemma keys_dict_set:
  "map fst (dict_set d k v) = (if k \<in> set (map fst d) then map fst d else map fst d @ [k])"
  by (simp add: dict_set_def update_keys)

lemma distinct_dict_set: "distinct (map fst d) \<Longrightarrow> distinct (map fst (dict_set d k v))"
  by (simp add: dict_set_def distinct_update)

lemma frequency_loop_distinct:
  "committer_line_frequency_map run_blame filename ows m s = (Inr m', s') \<Longrightarrow>
   distinct (map fst m) \<Longrightarrow> distinct (map fst m')"
proof (induction ows arbitrary: m s)
  case Nil
  then show ?case by simp
next
  case (Cons kv rest)
  obtain key val where kv: "kv = (key, val)" by (cases kv)
  from Cons.prems show ?case
    by (auto simp: kv split: prod.splits sum.splits
        dest!: Cons.IH intro: distinct_dict_set)
qed

lemma frequency_loop_keys:
  "committer_line_frequency_map run_blame filename ows m s = (Inr m', s') \<Longrightarrow>
   map fst m' = fold (\<lambda>x acc. if x \<in> set acc then acc else acc @ [x]) (map snd ows) (map fst m)"
proof (induction ows arbitrary: m s)
  case Nil
  then show ?case by simp
next
  case (Cons kv rest)
  obtain key val where kv: "kv = (key, val)" by (cases kv)
  from Cons.prems obtain f s1 where
    step: "committer_line_frequency_map run_blame filename rest
             (dict_set m val (float_add (dict_get m val 0) f)) s1 = (Inr m', s')"
    by (auto simp: kv split: prod.splits sum.splits)
  show ?case
    using Cons.IH [OF step] by (simp add: kv keys_dict_set)
qed

lemma member_committers:
  assumes "distinct (map fst m)" and "map_of m owner = Some p"
  shows "owner \<in> set (map fst (filter (\<lambda>a. t < snd a) (sort_key snd m))) \<longleftrightarrow> t < p"
proof -
  have "\<And>q. (owner, q) \<in> set m \<longleftrightarrow> q = p"
    using assms by (metis map_of_eq_Some_iff option.inject)
  then show ?thesis by force
qed

lemma map_of_fst_eq:
  "distinct (map fst m) \<Longrightarrow> a \<in> set m \<Longrightarrow> map_of m (fst a) = Some (snd a)"
  by (cases a) simp


subsection \<open>The blame cache\<close>

lemma blame_hit:
  "map_of (blame_cache s) f = Some c \<Longrightarrow> get_blame_file_content rb f s = (Inr c, s)"
  by (simp add: get_blame_file_content_def)

lemma blame_result:
  "fst (get_blame_file_content rb f s) =
     (case blame_content rb s f of Some c \<Rightarrow> Inr c | None \<Rightarrow> Inl BlameFailure)"
  by (simp add: get_blame_file_content_def blame_content_def split: option.splits)

lemma blame_ok_state:
  assumes "get_blame_file_content rb f s = (Inr c, s')"
  shows "map_of (blame_cache s') f = Some c"
    and "blame_content rb s' = blame_content rb s"
    and "\<exists>bc cl. s' = s\<lparr>blame_cache := bc, blame_calls := cl\<rparr>"
proof -
  show "map_of (blame_cache s') f = Some c"
    using assms
    by (auto simp: get_blame_file_content_def map_of_dict_set split: option.splits)
  show "blame_content rb s' = blame_content rb s"
  proof (cases "map_of (blame_cache s) f")
    case None
    with assms have run: "rb f = Some c"
      and s': "s' = s\<lparr>blame_cache := dict_set (blame_cache s) f c,
                         blame_calls := blame_calls s @ [f]\<rparr>"
      by (auto simp: get_blame_file_content_def split: option.splits)
    have "blame_content rb s' g = blame_content rb s g" for g
      by (cases "g = f") (simp_all add: blame_content_def s' map_of_dict_set None run)
    then show ?thesis by (simp add: fun_eq_iff)
  next
    case (Some c')
    with assms show ?thesis by (simp add: get_blame_file_content_def)
  qed
  show "\<exists>bc cl. s' = s\<lparr>blame_cache := bc, blame_calls := cl\<rparr>"
  proof (cases "map_of (blame_cache s) f")
    case None
    with assms show ?thesis
      by (auto simp: get_blame_file_content_def split: option.splits)
  next
    case (Some c')
    with assms have "s' = s\<lparr>blame_cache := blame_cache s, blame_calls := blame_calls s\<rparr>"
      by (simp add: get_blame_file_content_def)
    then show ?thesis by blast
  qed
qed

lemma blame_fail_state:
  assumes "get_blame_file_content rb f s = (Inl e, s')"
  shows "s' = s\<lparr>blame_calls := blame_calls s @ [f]\<rparr>" and "map_of (blame_cache s) f = None"
  using assms by (auto simp: get_blame_file_content_def split: option.splits)

lemma frequency_loop_hit:
  "map_of (blame_cache s) f = Some c \<Longrightarrow>
   committer_line_frequency_map rb f ows m s = (Inr (frequency_map c ows m), s)"
proof (induction ows arbitrary: m)
  case Nil
  then show ?case by (simp add: frequency_map_def)
next
  case (Cons kv rest)
  obtain key val where kv: "kv = (key, val)" by (cases kv)
  show ?case
    using Cons.IH [OF Cons.prems] blame_hit [OF Cons.prems, of rb]
    by (simp add: kv get_committer_line_frequency_percentage_def frequency_map_def)
qed

lemma frequency_loop_ok:
  assumes "get_blame_file_content rb f s = (Inr c, s1)"
  shows "committer_line_frequency_map rb f ows m s =
           (Inr (frequency_map c ows m), if ows = [] then s else s1)"
proof (cases ows)
  case Nil
  then show ?thesis by (simp add: frequency_map_def)
next
  case (Cons kv rest)
  obtain key val where kv: "kv = (key, val)" by (cases kv)
  have hit: "map_of (blame_cache s1) f = Some c"
    using blame_ok_state(1) [OF assms] .
  show ?thesis
    using assms frequency_loop_hit [OF hit, of rb rest]
    by (simp add: Cons kv get_committer_line_frequency_percentage_def frequency_map_def)
qed

lemma frequency_loop_fail:
  assumes "get_blame_file_content rb f s = (Inl e, s1)" and "ows \<noteq> []"
  shows "committer_line_frequency_map rb f ows m s = (Inl e, s1)"
proof (cases ows)
  case Nil
  with assms show ?thesis by simp
next
  case (Cons kv rest)
  obtain key val where kv: "kv = (key, val)" by (cases kv)
  show ?thesis
    using assms by (simp add: Cons kv get_committer_line_frequency_percentage_def)
qed

lemma committers_ok:
  assumes "get_blame_file_content rb f s = (Inr c, s1)"
  shows "get_committers_for_file rb f s =
           (Inr (committers_of c (owners s) (ownership_threshold s)),
            if owners s = [] then s else s1)"
  using frequency_loop_ok [OF assms, of "owners s" "[]"]
  by (simp add: get_committers_for_file_def committers_of_def)

lemma committers_fail:
  assumes "get_blame_file_content rb f s = (Inl e, s1)" and "owners s \<noteq> []"
  shows "get_committers_for_file rb f s = (Inl e, s1)"
  using frequency_loop_fail [OF assms, of "[]"]
  by (simp add: get_committers_for_file_def)

lemma committers_no_owners:
  "owners s = [] \<Longrightarrow> get_committers_for_file rb f s = (Inr [], s)"
  by (simp add: get_committers_for_file_def)

lemma committers_result:
  "fst (get_committers_for_file rb f s) =
     (if owners s = [] then Inr []
      else case blame_content rb s f of
             Some c \<Rightarrow> Inr (committers_of c (owners s) (ownership_threshold s))
           | None \<Rightarrow> Inl BlameFailure)"
proof (cases "owners s = []")
  case True
  then show ?thesis by (simp add: committers_no_owners)
next
  case False
  obtain r s1 where g: "get_blame_file_content rb f s = (r, s1)"
    by (cases "get_blame_file_content rb f s")
  show ?thesis
  proof (cases r)
    case (Inl e)
    with g False blame_result [of rb f s] committers_fail [of rb f s e s1] show ?thesis
      by (auto split: option.splits)
  next
    case (Inr c)
    with g False blame_result [of rb f s] committers_ok [of rb f s c s1] show ?thesis
      by (auto split: option.splits)
  qed
qed

lemma committers_state:
  assumes "get_committers_for_file rb f s = (Inr r, s')"
  shows "blame_content rb s' = blame_content rb s"
    and "\<exists>bc cl. s' = s\<lparr>blame_cache := bc, blame_calls := cl\<rparr>"
proof -
  obtain r1 s1 where g: "get_blame_file_content rb f s = (r1, s1)"
    by (cases "get_blame_file_content rb f s")
  have "blame_content rb s' = blame_content rb s
        \<and> (\<exists>bc cl. s' = s\<lparr>blame_cache := bc, blame_calls := cl\<rparr>)"
  proof (cases "owners s = []")
    case True
    with assms have "s' = s\<lparr>blame_cache := blame_cache s, blame_calls := blame_calls s\<rparr>"
      by (simp add: committers_no_owners)
    then show ?thesis by (metis (no_types) assms True committers_no_owners snd_conv)
  next
    case False
    show ?thesis
    proof (cases r1)
      case (Inl e)
      with g False assms committers_fail [of rb f s e s1] show ?thesis by simp
    next
      case (Inr c)
      with g False assms committers_ok [of rb f s c s1] have "s' = s1" by simp
      with g Inr blame_ok_state(2,3) [of rb f s c s1] show ?thesis by simp
    qed
  qed
  then show "blame_content rb s' = blame_content rb s"
    and "\<exists>bc cl. s' = s\<lparr>blame_cache := bc, blame_calls := cl\<rparr>" by simp_all
qed

lemma set_dict_set_subset: "set (dict_set d k v) \<subseteq> insert (k, v) (set d)"
  unfolding dict_set_def by (induction d) auto

lemma frequency_map_zero:
  assumes "\<forall>email. frequency_percentage c email = 0" and "\<forall>a\<in>set m. snd a = 0"
  shows "\<forall>a\<in>set (frequency_map c ows m). snd a = 0"
  using assms(2)
proof (induction ows arbitrary: m)
  case Nil
  then show ?case by (simp add: frequency_map_def)
next
  case (Cons kv rest)
  obtain key val where kv: "kv = (key, val)" by (cases kv)
  have "dict_get m val 0 = 0"
    using Cons.prems by (fastforce simp: dict_get_def split: option.splits dest: map_of_SomeD)
  moreover have "set (dict_set m val 0) \<subseteq> insert (val, 0) (set m)"
    by (rule set_dict_set_subset)
  moreover have "float_add 0 0 = 0"
    by (simp add: float_add_def round_double_def)
  ultimately have "\<forall>a\<in>set (dict_set m val
                      (float_add (dict_get m val 0) (frequency_percentage c key))). snd a = 0"
    using Cons.prems assms(1) by auto
  from Cons.IH [OF this] show ?case
    by (simp add: kv frequency_map_def)
qed


subsection \<open>The loop over the files\<close>

lemma codeowners_loop_state:
  "codeowners_data_loop rb fs cd0 s = (Inr cd, s1) \<Longrightarrow>
   blame_content rb s1 = blame_content rb s
   \<and> (\<exists>bc cl. s1 = s\<lparr>blame_cache := bc, blame_calls := cl\<rparr>)"
proof (induction fs arbitrary: cd0 s)
  case Nil
  then have "s1 = s" by simp
  then show ?case
    by (intro conjI exI [of _ "blame_cache s"] exI [of _ "blame_calls s"]) simp_all
next
  case (Cons f rest)
  from Cons.prems obtain fc s' where
    g: "get_committers_for_file rb f s = (Inr fc, s')" and
    l: "codeowners_data_loop rb rest
          (if fc \<noteq> [] then dict_set cd0 f fc else cd0) s' = (Inr cd, s1)"
    by (auto split: prod.splits sum.splits)
  from committers_state [OF g] obtain bc cl where
    a: "blame_content rb s' = blame_content rb s" "s' = s\<lparr>blame_cache := bc, blame_calls := cl\<rparr>"
    by blast
  from Cons.IH [OF l] obtain bc' cl' where
    b: "blame_content rb s1 = blame_content rb s'" "s1 = s'\<lparr>blame_cache := bc', blame_calls := cl'\<rparr>"
    by blast
  have "s1 = s\<lparr>blame_cache := bc', blame_calls := cl'\<rparr>"
    using a(2) b(2) by simp
  with a(1) b(1) show ?case by auto
qed

lemma keys_set_dict_set: "fst ` set (dict_set d k v) = insert k (fst ` set d)"
  by (simp add: dict_set_def dom_update)

lemma codeowners_loop_keys:
  "codeowners_data_loop rb fs cd0 s = (Inr cd, s1) \<Longrightarrow>
   set (map fst cd) \<subseteq> set (map fst cd0) \<union> set fs
   \<and> (distinct (map fst cd0) \<longrightarrow> distinct (map fst cd))"
proof (induction fs arbitrary: cd0 s)
  case Nil
  then show ?case by simp
next
  case (Cons f rest)
  from Cons.prems obtain fc s' where
    l: "codeowners_data_loop rb rest
          (if fc \<noteq> [] then dict_set cd0 f fc else cd0) s' = (Inr cd, s1)"
    by (auto split: prod.splits sum.splits)
  let ?cd = "if fc \<noteq> [] then dict_set cd0 f fc else cd0"
  have k: "set (map fst ?cd) \<subseteq> insert f (set (map fst cd0))"
    by (auto simp: keys_set_dict_set)
  have d: "distinct (map fst cd0) \<Longrightarrow> distinct (map fst ?cd)"
    by (simp add: distinct_dict_set)
  from Cons.IH [OF l] have
    "set (map fst cd) \<subseteq> set (map fst ?cd) \<union> set rest"
    "distinct (map fst ?cd) \<longrightarrow> distinct (map fst cd)"
    by blast+
  with k d show ?case
    by (simp only: list.set) blast
qed

lemma committers_result_cong:
  assumes "blame_content rb s' = blame_content rb s"
      and "\<exists>bc cl. s' = s\<lparr>blame_cache := bc, blame_calls := cl\<rparr>"
    shows "fst (get_committers_for_file rb f s') = fst (get_committers_for_file rb f s)"
proof -
  from assms(2) have "owners s' = owners s" "ownership_threshold s' = ownership_threshold s"
    by auto
  with assms(1) show ?thesis by (simp add: committers_result split: option.splits)
qed

lemma codeowners_loop_skip:
  "codeowners_data_loop rb fs cd0 s = (Inr cd, s1) \<Longrightarrow>
   fst (get_committers_for_file rb file s) = Inr [] \<Longrightarrow>
   map_of cd file = map_of cd0 file"
proof (induction fs arbitrary: cd0 s)
  case Nil
  then show ?case by simp
next
  case (Cons f rest)
  from Cons.prems(1) obtain fc s' where
    g: "get_committers_for_file rb f s = (Inr fc, s')" and
    l: "codeowners_data_loop rb rest
          (if fc \<noteq> [] then dict_set cd0 f fc else cd0) s' = (Inr cd, s1)"
    by (auto split: prod.splits sum.splits)
  have "fst (get_committers_for_file rb file s') = Inr []"
    using committers_result_cong [OF committers_state [OF g]] Cons.prems(2) by simp
  from Cons.IH [OF l this] have
    "map_of cd file = map_of (if fc \<noteq> [] then dict_set cd0 f fc else cd0) file" .
  moreover have "f = file \<Longrightarrow> fc = []"
    using g Cons.prems(2) by simp
  ultimately show ?case
    by (auto simp: map_of_dict_set)
qed

lemma map_of_carry_forward:
  "distinct (map fst original) \<Longrightarrow>
   map_of (carry_forward original cd u) k =
     (case map_of original k of Some v \<Rightarrow> Some (dict_get cd k v) | None \<Rightarrow> map_of u k)"
proof (induction original arbitrary: u)
  case Nil
  then show ?case by (simp add: carry_forward_def)
next
  case (Cons kv rest)
  obtain key val where kv: "kv = (key, val)" by (cases kv)
  from Cons.prems have d: "distinct (map fst rest)" and n: "key \<notin> fst ` set rest"
    by (simp_all add: kv)
  have none: "map_of rest key = None"
    using n by (simp add: map_of_eq_None_iff)
  have "map_of (carry_forward (kv # rest) cd u) k =
        map_of (carry_forward rest cd (dict_set u key (dict_get cd key val))) k"
    by (simp add: carry_forward_def kv)
  also have "\<dots> = (case map_of rest k of Some v \<Rightarrow> Some (dict_get cd k v)
                    | None \<Rightarrow> map_of (dict_set u key (dict_get cd key val)) k)"
    by (rule Cons.IH [OF d])
  also have "\<dots> = (case map_of (kv # rest) k of Some v \<Rightarrow> Some (dict_get cd k v)
                    | None \<Rightarrow> map_of u k)"
    using none by (auto simp: kv map_of_dict_set split: option.splits)
  finally show ?case .
qed

lemma map_of_insert_fresh:
  "distinct (map fst cd) \<Longrightarrow>
   map_of (insert_fresh splat cd u) k =
     (case map_of cd k of
        Some v \<Rightarrow> if set v \<inter> set splat = {} then Some v else map_of u k
      | None \<Rightarrow> map_of u k)"
proof (induction cd arbitrary: u)
  case Nil
  then show ?case by (simp add: insert_fresh_def)
next
  case (Cons kv rest)
  obtain key val where kv: "kv = (key, val)" by (cases kv)
  let ?u = "if set val \<inter> set splat = {} then dict_set u key val else u"
  from Cons.prems have d: "distinct (map fst rest)" and n: "key \<notin> fst ` set rest"
    by (simp_all add: kv)
  have none: "map_of rest key = None"
    using n by (simp add: map_of_eq_None_iff)
  have "map_of (insert_fresh splat (kv # rest) u) k = map_of (insert_fresh splat rest ?u) k"
    by (simp add: insert_fresh_def kv)
  also have "\<dots> = (case map_of rest k of
                      Some v \<Rightarrow> if set v \<inter> set splat = {} then Some v else map_of ?u k
                    | None \<Rightarrow> map_of ?u k)"
    by (rule Cons.IH [OF d])
  also have "\<dots> = (case map_of (kv # rest) k of
                      Some v \<Rightarrow> if set v \<inter> set splat = {} then Some v else map_of u k
                    | None \<Rightarrow> map_of u k)"
    using none by (auto simp: kv map_of_dict_set split: option.splits)
  finally show ?case .
qed

lemma distinct_carry_forward:
  "distinct (map fst u) \<Longrightarrow> distinct (map fst (carry_forward original cd u))"
  unfolding carry_forward_def
  by (induction original arbitrary: u) (auto simp: distinct_dict_set)

lemma distinct_insert_fresh:
  "distinct (map fst u) \<Longrightarrow> distinct (map fst (insert_fresh splat cd u))"
  unfolding insert_fresh_def
  by (induction cd arbitrary: u) (auto simp: distinct_dict_set)

lemma update_file_fields [simp]:
  "updated_codeowner_data (update_file d s) = updated_codeowner_data s"
  "optimized_codeowner_data (update_file d s) = optimized_codeowner_data s"
  "original_codeowner_data (update_file d s) = original_codeowner_data s"
  "codeowners_file (update_file d s) = codeowners_file s"
  "blame_calls (update_file d s) = blame_calls s"
  "blame_cache (update_file d s) = blame_cache s"
  by (simp_all add: update_file_def)

lemma reconcile_fields:
  "updated_codeowner_data (reconcile cd s) =
     insert_fresh (dict_get (carry_forward (original_codeowner_data s) cd
                               (updated_codeowner_data s)) ''*'' [])
       cd (carry_forward (original_codeowner_data s) cd (updated_codeowner_data s))"
  "optimized_codeowner_data (reconcile cd s) =
     optimize (dict_get (carry_forward (original_codeowner_data s) cd
                           (updated_codeowner_data s)) ''*'' [])
       (updated_codeowner_data (reconcile cd s))"
  "original_codeowner_data (reconcile cd s) = original_codeowner_data s"
  "blame_calls (reconcile cd s) = blame_calls s"
  by (simp_all add: reconcile_def Let_def)

lemma map_of_optimize_star: "map_of (optimize splat u) ''*'' = map_of u ''*''"
  unfolding optimize_def by (induction u) auto

subsection \<open>The three passes of the reconciliation\<close>

lemma dict_set_append: "k \<notin> fst ` set d \<Longrightarrow> dict_set d k v = d @ [(k, v)]"
  unfolding dict_set_def by (induction d) auto

lemma carry_forward_same_aux:
  "distinct (map fst (u @ original)) \<Longrightarrow>
   \<forall>(k, v)\<in>set original. dict_get cd k v = v \<Longrightarrow>
   carry_forward original cd u = u @ original"
proof (induction original arbitrary: u)
  case Nil
  then show ?case by (simp add: carry_forward_def)
next
  case (Cons kv rest)
  obtain key val where kv: "kv = (key, val)" by (cases kv)
  from Cons.prems have n: "key \<notin> fst ` set u" and g: "dict_get cd key val = val"
    by (auto simp: kv)
  have "carry_forward (kv # rest) cd u = carry_forward rest cd (u @ [(key, val)])"
    by (simp add: carry_forward_def kv g dict_set_append [OF n])
  also have "\<dots> = (u @ [(key, val)]) @ rest"
    using Cons.prems by (intro Cons.IH) (auto simp: kv)
  finally show ?case by (simp add: kv)
qed

lemma carry_forward_same:
  "distinct (map fst original) \<Longrightarrow> \<forall>(k, v)\<in>set original. dict_get cd k v = v \<Longrightarrow>
   carry_forward original cd [] = original"
  using carry_forward_same_aux [of "[]" original cd] by simp

lemma insert_fresh_same:
  "\<forall>(k, v)\<in>set cd. map_of u k = Some v \<Longrightarrow> insert_fresh splat cd u = u"
  unfolding insert_fresh_def
  by (induction cd) (auto simp: dict_set_def update_triv)

lemma optimize_same:
  "\<forall>(k, v)\<in>set u. k = ''*'' \<or> set v \<inter> set splat = {} \<Longrightarrow> optimize splat u = u"
  unfolding optimize_def by (rule filter_True) auto

lemma distinct_optimize: "distinct (map fst u) \<Longrightarrow> distinct (map fst (optimize splat u))"
  unfolding optimize_def by (rule distinct_map_filter)

lemma dict_eq_iff:
  assumes "distinct (map fst a)" and "distinct (map fst b)"
  shows "dict_eq a b \<longleftrightarrow> map_of a = map_of b"
proof
  assume eq: "dict_eq a b"
  then have len: "length a = length b"
    and sub: "\<And>k v. (k, v) \<in> set a \<Longrightarrow> map_of b k = Some v"
    by (auto simp: dict_eq_def list_all_iff)
  have "fst ` set a \<subseteq> fst ` set b"
    using sub by (force dest: map_of_SomeD)
  moreover have "card (fst ` set a) = card (fst ` set b)"
    using assms len distinct_card [of "map fst a"] distinct_card [of "map fst b"] by simp
  ultimately have keys: "fst ` set a = fst ` set b"
    by (simp add: card_subset_eq)
  show "map_of a = map_of b"
  proof
    fix k
    show "map_of a k = map_of b k"
    proof (cases "k \<in> fst ` set a")
      case True
      then obtain v where "(k, v) \<in> set a" by auto
      with assms(1) sub show ?thesis by simp
    next
      case False
      with keys have "map_of a k = None" "map_of b k = None"
        by (simp_all add: map_of_eq_None_iff)
      then show ?thesis by simp
    qed
  qed
next
  assume eq: "map_of a = map_of b"
  then have "fst ` set a = fst ` set b"
    by (metis dom_map_of_conv_image_fst)
  then have "length a = length b"
    using assms distinct_card [of "map fst a"] distinct_card [of "map fst b"] by simp
  moreover have "map_of b k = Some v" if "(k, v) \<in> set a" for k v
    using that assms(1) eq by (metis map_of_is_SomeI)
  ultimately show "dict_eq a b"
    by (auto simp: dict_eq_def list_all_iff)
qed

lemma reconcile_empty:
  assumes "distinct (map fst (original_codeowner_data s))" and "updated_codeowner_data s = []"
  shows "updated_codeowner_data (reconcile [] s) = original_codeowner_data s"
    and "optimized_codeowner_data (reconcile [] s) =
           optimize (dict_get (original_codeowner_data s) ''*'' []) (original_codeowner_data s)"
proof -
  have cf: "carry_forward (original_codeowner_data s) [] [] = original_codeowner_data s"
    using assms(1) by (intro carry_forward_same) (auto simp: dict_get_def)
  show "updated_codeowner_data (reconcile [] s) = original_codeowner_data s"
    by (simp add: reconcile_fields(1) assms(2) cf insert_fresh_def)
  then show "optimized_codeowner_data (reconcile [] s) =
           optimize (dict_get (original_codeowner_data s) ''*'' []) (original_codeowner_data s)"
    by (simp add: reconcile_fields(2) assms(2) cf)
qed

subsection \<open>Writing the file, and the invocations of the blame command\<close>

lemma update_file_effect:
  "writes (update_file d t) =
     (if dict_eq d (original_codeowner_data t) then writes t
      else writes t @ [codeowners_file t])"
  "updated (update_file d t) = (if dict_eq d (original_codeowner_data t) then updated t else True)"
  "disk (update_file d t) =
     (if dict_eq d (original_codeowner_data t) then disk t
      else (disk t)(codeowners_file t \<mapsto>
              header @ map (\<lambda>(key, val). csv_writer_row (key # val)) d))"
  by (simp_all add: update_file_def)

lemma reconcile_effect:
  "\<not> dict_eq (optimized_codeowner_data (reconcile cd s)) (original_codeowner_data s) \<Longrightarrow>
     writes (reconcile cd s) = writes s @ [codeowners_file s] \<and> updated (reconcile cd s)
     \<and> disk (reconcile cd s) =
         (disk s)(codeowners_file s \<mapsto>
            header @ map (\<lambda>(key, val). csv_writer_row (key # val))
                       (optimized_codeowner_data (reconcile cd s)))"
  "dict_eq (optimized_codeowner_data (reconcile cd s)) (original_codeowner_data s) \<Longrightarrow>
     writes (reconcile cd s) = writes s \<and> disk (reconcile cd s) = disk s
     \<and> updated (reconcile cd s) = updated s"
proof -
  define A where "A = carry_forward (original_codeowner_data s) cd (updated_codeowner_data s)"
  define U where "U = insert_fresh (dict_get A ''*'' []) cd A"
  define P where "P = optimize (dict_get A ''*'' []) U"
  have r: "reconcile cd s =
             update_file P (s\<lparr>updated_codeowner_data := U, optimized_codeowner_data := P\<rparr>)"
    by (simp add: reconcile_def Let_def A_def U_def P_def)
  have o: "optimized_codeowner_data (reconcile cd s) = P"
    by (simp add: r)
  show "\<not> dict_eq (optimized_codeowner_data (reconcile cd s)) (original_codeowner_data s) \<Longrightarrow>
     writes (reconcile cd s) = writes s @ [codeowners_file s] \<and> updated (reconcile cd s)
     \<and> disk (reconcile cd s) =
         (disk s)(codeowners_file s \<mapsto>
            header @ map (\<lambda>(key, val). csv_writer_row (key # val))
                       (optimized_codeowner_data (reconcile cd s)))"
    unfolding o by (simp add: r update_file_effect)
  show "dict_eq (optimized_codeowner_data (reconcile cd s)) (original_codeowner_data s) \<Longrightarrow>
     writes (reconcile cd s) = writes s \<and> disk (reconcile cd s) = disk s
     \<and> updated (reconcile cd s) = updated s"
    unfolding o by (simp add: r update_file_effect)
qed

lemma reconcile_same:
  assumes d: "distinct (map fst (original_codeowner_data s))"
      and fresh: "updated_codeowner_data s = []"
      and dcd: "distinct (map fst cd)"
      and match: "\<forall>k v. map_of cd k = Some v \<longrightarrow> map_of (original_codeowner_data s) k = Some v"
      and nored: "\<forall>(k, v)\<in>set (original_codeowner_data s).
                    k = ''*'' \<or> set v \<inter> set (dict_get (original_codeowner_data s) ''*'' []) = {}"
    shows "optimized_codeowner_data (reconcile cd s) = original_codeowner_data s"
proof -
  let ?O = "original_codeowner_data s"
  have "dict_get cd k v = v" if "(k, v) \<in> set ?O" for k v
  proof (cases "map_of cd k")
    case None
    then show ?thesis by (simp add: dict_get_def)
  next
    case (Some w)
    with match have "map_of ?O k = Some w" by simp
    moreover have "map_of ?O k = Some v" using that d by simp
    ultimately show ?thesis using Some by (simp add: dict_get_def)
  qed
  then have cf: "carry_forward ?O cd [] = ?O"
    using d by (intro carry_forward_same) auto
  have "map_of ?O k = Some v" if "(k, v) \<in> set cd" for k v
    using that dcd match by simp
  then have ins: "insert_fresh splat cd ?O = ?O" for splat
    by (intro insert_fresh_same) auto
  show ?thesis
    using nored by (simp add: reconcile_fields fresh cf ins optimize_same)
qed


lemma blame_calls_inv:
  assumes "calls_cached s" and "get_blame_file_content rb f s = (r, s')"
  shows "case r of Inr c \<Rightarrow> calls_cached s' | Inl e \<Rightarrow> distinct (blame_calls s')"
proof (cases "map_of (blame_cache s) f")
  case (Some c)
  with assms show ?thesis by (auto simp: get_blame_file_content_def)
next
  case None
  from assms(1) have d: "distinct (blame_calls s)"
    and c: "\<And>g. g \<in> set (blame_calls s) \<Longrightarrow> map_of (blame_cache s) g \<noteq> None"
    by (auto simp: calls_cached_def list_all_iff)
  from c None have n: "f \<notin> set (blame_calls s)" by blast
  show ?thesis
  proof (cases "rb f")
    case rn: None
    with None assms(2) d n show ?thesis
      by (auto simp: get_blame_file_content_def)
  next
    case (Some content)
    with None assms(2) have r: "r = Inr content"
      and s': "s' = s\<lparr>blame_cache := dict_set (blame_cache s) f content,
                        blame_calls := blame_calls s @ [f]\<rparr>"
      by (auto simp: get_blame_file_content_def)
    have "calls_cached s'"
      using d n c by (auto simp: calls_cached_def list_all_iff s' map_of_dict_set)
    with r show ?thesis by simp
  qed
qed

lemma committers_final_state:
  "snd (get_committers_for_file rb f s) =
     (if owners s = [] then s else snd (get_blame_file_content rb f s))"
proof (cases "owners s = []")
  case True
  then show ?thesis by (simp add: committers_no_owners)
next
  case False
  obtain r1 s1 where g: "get_blame_file_content rb f s = (r1, s1)"
    by (cases "get_blame_file_content rb f s")
  show ?thesis
    using False g committers_ok [of rb f s _ s1] committers_fail [of rb f s _ s1]
    by (cases r1) simp_all
qed

lemma committers_calls_inv:
  assumes "calls_cached s" and "get_committers_for_file rb f s = (r, s')"
  shows "case r of Inr c \<Rightarrow> calls_cached s' | Inl e \<Rightarrow> distinct (blame_calls s')"
proof (cases "owners s = []")
  case True
  with assms show ?thesis by (auto simp: committers_no_owners)
next
  case False
  obtain r1 s1 where g: "get_blame_file_content rb f s = (r1, s1)"
    by (cases "get_blame_file_content rb f s")
  show ?thesis
  proof (cases r1)
    case (Inl e)
    with g False assms(2) committers_fail [of rb f s e s1] blame_calls_inv [OF assms(1) g]
    show ?thesis by auto
  next
    case (Inr c)
    with g False assms(2) committers_ok [of rb f s c s1] blame_calls_inv [OF assms(1) g]
    show ?thesis by auto
  qed
qed

lemma codeowners_loop_calls_inv:
  "calls_cached s \<Longrightarrow> codeowners_data_loop rb fs cd0 s = (r, s') \<Longrightarrow>
   (case r of Inr c \<Rightarrow> calls_cached s' | Inl e \<Rightarrow> distinct (blame_calls s'))"
proof (induction fs arbitrary: cd0 s)
  case Nil
  then show ?case by auto
next
  case (Cons f rest)
  obtain r1 s1 where g: "get_committers_for_file rb f s = (r1, s1)"
    by (cases "get_committers_for_file rb f s")
  show ?case
  proof (cases r1)
    case (Inl e)
    with g Cons.prems committers_calls_inv [OF Cons.prems(1) g] show ?thesis by auto
  next
    case (Inr fc)
    with g committers_calls_inv [OF Cons.prems(1) g] have c1: "calls_cached s1" by simp
    from g Inr Cons.prems(2) have
      "codeowners_data_loop rb rest (if fc \<noteq> [] then dict_set cd0 f fc else cd0) s1 = (r, s')"
      by simp
    from Cons.IH [OF c1 this] show ?thesis .
  qed
qed

subsection \<open>Rows of the manifest, and the value of the module's main\<close>

lemma load_rows_single:
  "load_rows [[]] d = d"
  "load_rows [f # fs] d = (if f = ''#'' then d else dict_set d f fs)"
  by simp_all

lemma main_returns_None:
  "fst (main run_blame get_all_files rc dsk a) = Inr r \<Longrightarrow> r = None"
  by (auto simp: main_def Let_def
      split: threshold_text.splits gitownrc.splits sum.splits prod.splits if_splits)

section \<open>The ownership calculator\<close>

text \<open>
  C2. The boundary of the threshold is exclusive. Let \<open>m\<close> be the frequency map that
  \<^verbatim>\<open>get_committers_for_file\<close> accumulates for a file, in the floating-point arithmetic of
  the source. An owner whose accumulated percentage \<open>p\<close> equals the threshold is not in
  the returned list, and an owner is in the returned list exactly when \<open>p\<close> is strictly
  greater than the threshold.
\<close>

theorem threshold_boundary_exclusive:
  assumes "committer_line_frequency_map run_blame filename (owners s) [] s = (Inr m, s')"
      and "map_of m owner = Some p"
    shows "\<exists>r. get_committers_for_file run_blame filename s = (Inr r, s')
             \<and> (p = ownership_threshold s \<longrightarrow> owner \<notin> set r)
             \<and> (ownership_threshold s < p \<longrightarrow> owner \<in> set r)
             \<and> (owner \<in> set r \<longleftrightarrow> ownership_threshold s < p)"
proof -
  have d: "distinct (map fst m)"
    using frequency_loop_distinct [OF assms(1)] by simp
  show ?thesis
    using member_committers [OF d assms(2), of "ownership_threshold s"] assms(1)
    by (simp add: get_committers_for_file_def)
qed


text \<open>
  In \<^verbatim>\<open>foo.py\<close> the percentage of bob is the float 25.0, equal to the threshold 25, and bob
  is left out. In \<^verbatim>\<open>twenty.py\<close> the percentage of alice, \<^verbatim>\<open>(11 / 20) * 100\<close>, is the float
  next above 55, and with the threshold 55 alice is returned.
\<close>

theorem threshold_boundary_exclusive_witness:
  "fst (committer_line_frequency_map example_blame ''foo.py''
          (owners (example_updater [] 25 [])) [] (example_updater [] 25 []))
     = Inr [(''alice'', 75), (''bob'', 25)]
   \<and> ownership_threshold (example_updater [] 25 []) = 25
   \<and> fst (get_committers_for_file example_blame ''foo.py'' (example_updater [] 25 []))
       = Inr [''alice'']
   \<and> (\<exists>r. fst (get_committers_for_file example_blame ''foo.py'' (example_updater [] 25 []))
              = Inr r \<and> ''bob'' \<notin> set r \<and> ''alice'' \<in> set r)
   \<and> fst (committer_line_frequency_map example_blame ''twenty.py''
          (owners (example_updater [] 55 [])) [] (example_updater [] 55 []))
       = Inr [(''alice'', 55 + 1 / 2 ^ 47), (''bob'', 45)]
   \<and> fst (get_committers_for_file example_blame ''twenty.py'' (example_updater [] 55 []))
       = Inr [''alice'']
   \<and> (\<exists>r. fst (get_committers_for_file example_blame ''twenty.py'' (example_updater [] 55 []))
              = Inr r \<and> ''alice'' \<in> set r)"
proof -
  let ?s = "example_updater [] 25 []"
  let ?l = "committer_line_frequency_map example_blame ''foo.py'' (owners ?s) [] ?s"
  let ?t = "example_updater [] 55 []"
  let ?k = "committer_line_frequency_map example_blame ''twenty.py'' (owners ?t) [] ?t"
  have f: "fst ?l = Inr [(''alice'', 75), (''bob'', 25)]"
    by code_simp
  have h1: "?l = (Inr [(''alice'', 75), (''bob'', 25)], snd ?l)"
    using f by (simp add: prod_eq_iff)
  have h2: "map_of [(''alice'', 75), (''bob'', 25 :: rat)] ''bob'' = Some 25"
    by simp
  have h3: "map_of [(''alice'', 75), (''bob'', 25 :: rat)] ''alice'' = Some 75"
    by simp
  have t: "ownership_threshold ?s = 25" "ownership_threshold ?t = 55"
    by (simp_all add: example_updater_def)
  have g: "fst (get_committers_for_file example_blame ''foo.py'' ?s) = Inr [''alice'']"
    by code_simp
  have f': "fst ?k = Inr [(''alice'', 55 + 1 / 2 ^ 47), (''bob'', 45)]"
    by code_simp
  have k1: "?k = (Inr [(''alice'', 55 + 1 / 2 ^ 47), (''bob'', 45)], snd ?k)"
    using f' by (simp add: prod_eq_iff)
  have k2: "map_of [(''alice'', 55 + 1 / 2 ^ 47), (''bob'', 45 :: rat)] ''alice''
              = Some (55 + 1 / 2 ^ 47)"
    by simp
  have g': "fst (get_committers_for_file example_blame ''twenty.py'' ?t) = Inr [''alice'']"
    by code_simp
  from threshold_boundary_exclusive [OF h1 h2] threshold_boundary_exclusive [OF h1 h3]
  have a: "\<exists>r. fst (get_committers_for_file example_blame ''foo.py'' ?s) = Inr r
             \<and> ''bob'' \<notin> set r \<and> ''alice'' \<in> set r"
    by (auto simp: t)
  from threshold_boundary_exclusive [OF k1 k2]
  have b: "\<exists>r. fst (get_committers_for_file example_blame ''twenty.py'' ?t) = Inr r
             \<and> ''alice'' \<in> set r"
    by (auto simp: t)
  from f t g a f' g' b show ?thesis by blast
qed

text \<open>
  C6. The returned owners are in ascending order of accumulated percentage, as the
  floating-point arithmetic of the source accumulates it, and the owners
  of one percentage are in the order in which their names first occur in the alias table:
  for every percentage \<open>p\<close>, the owners of the result with percentage \<open>p\<close> are the
  names of percentage \<open>p\<close> above the threshold, in the order of first occurrence.
\<close>

theorem committers_sorted_stable:
  assumes "committer_line_frequency_map run_blame filename (owners s) [] s = (Inr m, s')"
  shows "\<exists>r. get_committers_for_file run_blame filename s = (Inr r, s')
           \<and> sorted (map (\<lambda>owner. dict_get m owner 0) r)
           \<and> (\<forall>p. filter (\<lambda>owner. map_of m owner = Some p) r =
                    filter (\<lambda>owner. map_of m owner = Some p \<and> ownership_threshold s < p)
                      (first_occurrences (map snd (owners s))))"
proof -
  let ?t = "ownership_threshold s"
  let ?ys = "filter (\<lambda>a. ?t < snd a) (sort_key snd m)"
  have d: "distinct (map fst m)"
    using frequency_loop_distinct [OF assms] by simp
  have keys: "map fst m = first_occurrences (map snd (owners s))"
    using frequency_loop_keys [OF assms] by (simp add: first_occurrences_def)
  have r: "get_committers_for_file run_blame filename s = (Inr (map fst ?ys), s')"
    using assms by (simp add: get_committers_for_file_def)
  have val: "dict_get m (fst a) 0 = snd a" "map_of m (fst a) = Some (snd a)" if "a \<in> set m" for a
    using map_of_fst_eq [OF d that] by (simp_all add: dict_get_def)
  have "map (\<lambda>owner. dict_get m owner 0) (map fst ?ys) = map snd ?ys"
    by (simp add: val)
  moreover have "sorted (map snd ?ys)"
    by (simp add: sorted_filter)
  ultimately have srt: "sorted (map (\<lambda>owner. dict_get m owner 0) (map fst ?ys))"
    by (simp only:)
  have fc: "filter (\<lambda>a. map_of m (fst a) = Some p \<and> Q a) xs = filter (\<lambda>a. snd a = p \<and> Q a) xs"
    if "set xs \<subseteq> set m" for xs p Q
  proof (intro filter_cong refl)
    fix a assume "a \<in> set xs"
    with that have "map_of m (fst a) = Some (snd a)" by (auto simp: val)
    then show "(map_of m (fst a) = Some p \<and> Q a) = (snd a = p \<and> Q a)" by simp
  qed
  have ties: "filter (\<lambda>owner. map_of m owner = Some p) (map fst ?ys) =
              filter (\<lambda>owner. map_of m owner = Some p \<and> ?t < p) (map fst m)" for p
  proof -
    have "filter (\<lambda>owner. map_of m owner = Some p) (map fst ?ys) =
          map fst (filter (\<lambda>a. map_of m (fst a) = Some p \<and> True) ?ys)"
      by (simp add: filter_map comp_def)
    also have "\<dots> = map fst (filter (\<lambda>a. snd a = p \<and> True) ?ys)"
      by (subst fc) auto
    also have "\<dots> = map fst (filter (\<lambda>a. ?t < snd a) (filter (\<lambda>a. snd a = p) (sort_key snd m)))"
      by (simp add: conj_commute)
    also have "\<dots> = map fst (filter (\<lambda>a. ?t < snd a) (filter (\<lambda>a. snd a = p) m))"
      by (simp only: sort_key_stable)
    also have "\<dots> = map fst (filter (\<lambda>a. snd a = p \<and> ?t < p) m)"
      by (simp add: conj_commute cong: conj_cong)
    also have "\<dots> = map fst (filter (\<lambda>a. map_of m (fst a) = Some p \<and> ?t < p) m)"
      by (subst fc) auto
    also have "\<dots> = filter (\<lambda>owner. map_of m owner = Some p \<and> ?t < p) (map fst m)"
      by (simp add: filter_map comp_def)
    finally show ?thesis .
  qed
  show ?thesis
    using r srt ties keys by simp
qed

text \<open>
  In \<^verbatim>\<open>tie.py\<close> bob and alice both have the float 40.0 and carol has 20.0: carol comes
  first, and bob comes before alice as in the alias table. In \<^verbatim>\<open>six.py\<close> bob has 50.0 and
  the two identities of alice add up to the float next below 50: alice comes first.
\<close>

theorem committers_sorted_stable_witness:
  "fst (committer_line_frequency_map example_blame ''tie.py''
          (owners ((example_updater [] 10 [])
             \<lparr>owners := [(''b@x'', ''bob''), (''a@x'', ''alice''), (''c@x'', ''carol'')]\<rparr>)) []
          ((example_updater [] 10 [])
             \<lparr>owners := [(''b@x'', ''bob''), (''a@x'', ''alice''), (''c@x'', ''carol'')]\<rparr>))
     = Inr [(''bob'', 40), (''alice'', 40), (''carol'', 20)]
   \<and> fst (get_committers_for_file example_blame ''tie.py''
          ((example_updater [] 10 [])
             \<lparr>owners := [(''b@x'', ''bob''), (''a@x'', ''alice''), (''c@x'', ''carol'')]\<rparr>))
       = Inr [''carol'', ''bob'', ''alice'']
   \<and> sorted (map (\<lambda>owner. dict_get [(''bob'', 40), (''alice'', 40), (''carol'', 20 :: rat)] owner 0)
               [''carol'', ''bob'', ''alice''])
   \<and> filter (\<lambda>owner. map_of [(''bob'', 40), (''alice'', 40), (''carol'', 20 :: rat)] owner = Some 40)
        [''carol'', ''bob'', ''alice'']
       = [''bob'', ''alice'']
   \<and> first_occurrences (map snd [(''b@x'', ''bob''), (''a@x'', ''alice''), (''c@x'', ''carol'')])
       = [''bob'', ''alice'', ''carol'']
   \<and> fst (committer_line_frequency_map example_blame ''six.py''
          (owners ((example_updater [] 10 [])
             \<lparr>owners := [(''b@x'', ''bob''), (''a1@x'', ''alice''), (''a2@x'', ''alice'')]\<rparr>)) []
          ((example_updater [] 10 [])
             \<lparr>owners := [(''b@x'', ''bob''), (''a1@x'', ''alice''), (''a2@x'', ''alice'')]\<rparr>))
       = Inr [(''bob'', 50), (''alice'', 50 - 1 / 2 ^ 47)]
   \<and> fst (get_committers_for_file example_blame ''six.py''
          ((example_updater [] 10 [])
             \<lparr>owners := [(''b@x'', ''bob''), (''a1@x'', ''alice''), (''a2@x'', ''alice'')]\<rparr>))
       = Inr [''alice'', ''bob'']"
proof -
  let ?s = "(example_updater [] 10 [])
              \<lparr>owners := [(''b@x'', ''bob''), (''a@x'', ''alice''), (''c@x'', ''carol'')]\<rparr>"
  let ?l = "committer_line_frequency_map example_blame ''tie.py'' (owners ?s) [] ?s"
  let ?m = "[(''bob'', 40), (''alice'', 40), (''carol'', 20 :: rat)]"
  let ?t = "(example_updater [] 10 [])
              \<lparr>owners := [(''b@x'', ''bob''), (''a1@x'', ''alice''), (''a2@x'', ''alice'')]\<rparr>"
  let ?k = "committer_line_frequency_map example_blame ''six.py'' (owners ?t) [] ?t"
  let ?n = "[(''bob'', 50), (''alice'', 50 - 1 / 2 ^ 47 :: rat)]"
  have f: "fst ?l = Inr ?m"
    by code_simp
  have h1: "?l = (Inr ?m, snd ?l)"
    using f by (simp add: prod_eq_iff)
  have g: "fst (get_committers_for_file example_blame ''tie.py'' ?s)
             = Inr [''carol'', ''bob'', ''alice'']"
    by code_simp
  have e: "filter (\<lambda>owner. map_of ?m owner = Some 40 \<and> ownership_threshold ?s < 40)
             (first_occurrences (map snd (owners ?s))) = [''bob'', ''alice'']"
    by code_simp
  from committers_sorted_stable [OF h1] obtain r where
    r: "get_committers_for_file example_blame ''tie.py'' ?s = (Inr r, snd ?l)"
    and srt0: "sorted (map (\<lambda>owner. dict_get ?m owner 0) r)"
    and ties0: "\<forall>p. filter (\<lambda>owner. map_of ?m owner = Some p) r =
                  filter (\<lambda>owner. map_of ?m owner = Some p \<and> ownership_threshold ?s < p)
                    (first_occurrences (map snd (owners ?s)))"
    by blast
  from r g have req: "r = [''carol'', ''bob'', ''alice'']"
    by simp
  have srt: "sorted (map (\<lambda>owner. dict_get ?m owner 0) [''carol'', ''bob'', ''alice''])"
    using srt0 by (simp only: req)
  have tie: "filter (\<lambda>owner. map_of ?m owner = Some 40) [''carol'', ''bob'', ''alice'']
               = [''bob'', ''alice'']"
    using trans [OF ties0 [rule_format, of 40] e] by (simp only: req)
  have o': "first_occurrences (map snd [(''b@x'', ''bob''), (''a@x'', ''alice''), (''c@x'', ''carol'')])
              = [''bob'', ''alice'', ''carol'']"
    by code_simp
  have f': "fst ?k = Inr ?n"
    by code_simp
  have k1: "?k = (Inr ?n, snd ?k)"
    using f' by (simp add: prod_eq_iff)
  from committers_sorted_stable [OF k1] obtain r' where
    r': "get_committers_for_file example_blame ''six.py'' ?t = (Inr r', snd ?k)"
    by blast
  have g': "fst (get_committers_for_file example_blame ''six.py'' ?t) = Inr [''alice'', ''bob'']"
    by code_simp
  have ow: "owners ?s = [(''b@x'', ''bob''), (''a@x'', ''alice''), (''c@x'', ''carol'')]"
           "owners ?t = [(''b@x'', ''bob''), (''a1@x'', ''alice''), (''a2@x'', ''alice'')]"
    by simp_all
  have "fst (committer_line_frequency_map example_blame ''tie.py''
          [(''b@x'', ''bob''), (''a@x'', ''alice''), (''c@x'', ''carol'')] [] ?s) = Inr ?m"
    using f by (simp only: ow)
  moreover have "fst (committer_line_frequency_map example_blame ''six.py''
          [(''b@x'', ''bob''), (''a1@x'', ''alice''), (''a2@x'', ''alice'')] [] ?t) = Inr ?n"
    using f' by (simp only: ow)
  ultimately show ?thesis
    using g srt tie o' g' by (simp only: ow simp_thms)
qed

text \<open>
  C3, as amended. When the blame text of a file has no line terminator, the frequency of
  every identity is 0, and for a threshold that is not negative
  \<^verbatim>\<open>get_committers_for_file\<close> returns the empty list, whatever the alias table holds.
\<close>

theorem empty_blame_no_owners:
  assumes "get_blame_file_content run_blame filename s = (Inr content, s1)"
      and "str_count content newline = 0"
      and "0 \<le> ownership_threshold s"
    shows "(\<forall>email. fst (get_committer_line_frequency_percentage run_blame email filename s)
                      = Inr 0)
           \<and> fst (get_committers_for_file run_blame filename s) = Inr []"
proof -
  have z: "\<forall>email. frequency_percentage content email = 0"
    using assms(2) by (simp add: frequency_percentage_def)
  then have f: "\<forall>email. fst (get_committer_line_frequency_percentage run_blame email filename s)
                          = Inr 0"
    using assms(1) by (simp add: get_committer_line_frequency_percentage_def)
  have "\<forall>a\<in>set (frequency_map content (owners s) []). snd a = 0"
    using frequency_map_zero [OF z, of "[]"] by simp
  then have "filter (\<lambda>a. ownership_threshold s < snd a)
               (sort_key snd (frequency_map content (owners s) [])) = []"
    using assms(3) by (auto simp: filter_empty_conv)
  then have "committers_of content (owners s) (ownership_threshold s) = []"
    by (simp add: committers_of_def)
  with committers_ok [OF assms(1)] f show ?thesis by simp
qed

theorem empty_blame_no_owners_witness:
  "fst (get_blame_file_content example_blame ''empty.py'' (example_updater [] 0 [])) = Inr []
   \<and> str_count [] newline = 0
   \<and> 0 \<le> ownership_threshold (example_updater [] 0 [])
   \<and> fst (get_committer_line_frequency_percentage example_blame ''a@x'' ''empty.py''
            (example_updater [] 0 [])) = Inr 0
   \<and> fst (get_committers_for_file example_blame ''empty.py'' (example_updater [] 0 [])) = Inr []"
proof -
  let ?s = "example_updater [] 0 []"
  let ?g = "get_blame_file_content example_blame ''empty.py'' ?s"
  have f: "fst ?g = Inr []"
    by code_simp
  have h1: "?g = (Inr [], snd ?g)"
    using f by (simp add: prod_eq_iff)
  have h2: "str_count [] newline = 0"
    by code_simp
  have h3: "0 \<le> ownership_threshold ?s"
    by (simp add: example_updater_def)
  show ?thesis
    using f h2 h3 empty_blame_no_owners [OF h1 h2 h3] by blast
qed

text \<open>
  With the threshold \<open>-1\<close> the claim as stated fails: the blame text of \<^verbatim>\<open>empty.py\<close> has
  no line terminator, both owners have the percentage 0, and both are returned.
\<close>

theorem empty_blame_negative_threshold_counterexample:
  "example_blame ''empty.py'' = Some []
   \<and> str_count [] newline = 0
   \<and> fst (get_committers_for_file example_blame ''empty.py'' (example_updater [] (- 1) []))
       = Inr [''alice'', ''bob'']"
  by code_simp

section \<open>The manifest reconciler\<close>

text \<open>
  C7. After a reconciliation, every key of the optimized manifest is a key of the updated
  manifest, and when the updated manifest has an entry for the wildcard key \<^verbatim>\<open>*\<close>, the
  optimized manifest has it with the same owner list, whatever the splat set is.
\<close>

theorem optimized_subset_keeps_star:
  assumes "check_files run_blame fs s = (Inr u, s')"
  shows "set (map fst (optimized_codeowner_data s')) \<subseteq> set (map fst (updated_codeowner_data s'))
         \<and> (\<forall>v. map_of (updated_codeowner_data s') ''*'' = Some v
                \<longrightarrow> map_of (optimized_codeowner_data s') ''*'' = Some v)"
proof -
  from assms obtain cd s1 where s': "s' = reconcile cd s1"
    by (auto simp: check_files_def split: prod.splits sum.splits)
  have "set (map fst (optimize splat upd)) \<subseteq> set (map fst upd)" for splat upd
    by (auto simp: optimize_def)
  then show ?thesis
    by (simp add: s' reconcile_fields(2) map_of_optimize_star)
qed

theorem optimized_subset_keeps_star_witness:
  "check_files example_blame [''foo.py'']
       (example_updater [''foo.py''] 25 [(''*'', [''alice'']), (''foo.py'', [''bob''])])
     = (Inr (), example_run [''foo.py''] 25 [(''*'', [''alice'']), (''foo.py'', [''bob''])])
   \<and> updated_codeowner_data
         (example_run [''foo.py''] 25 [(''*'', [''alice'']), (''foo.py'', [''bob''])])
       = [(''*'', [''alice'']), (''foo.py'', [''alice''])]
   \<and> optimized_codeowner_data
         (example_run [''foo.py''] 25 [(''*'', [''alice'']), (''foo.py'', [''bob''])])
       = [(''*'', [''alice''])]
   \<and> set (map fst (optimized_codeowner_data
         (example_run [''foo.py''] 25 [(''*'', [''alice'']), (''foo.py'', [''bob''])])))
       \<subseteq> set (map fst (updated_codeowner_data
         (example_run [''foo.py''] 25 [(''*'', [''alice'']), (''foo.py'', [''bob''])])))
   \<and> map_of (optimized_codeowner_data
         (example_run [''foo.py''] 25 [(''*'', [''alice'']), (''foo.py'', [''bob''])])) ''*''
       = Some [''alice'']"
proof -
  let ?s = "example_updater [''foo.py''] 25 [(''*'', [''alice'']), (''foo.py'', [''bob''])]"
  let ?r = "example_run [''foo.py''] 25 [(''*'', [''alice'']), (''foo.py'', [''bob''])]"
  have f: "fst (check_files example_blame [''foo.py''] ?s) = Inr ()"
    by code_simp
  have h: "check_files example_blame [''foo.py''] ?s = (Inr (), ?r)"
    using f by (simp add: example_run_def prod_eq_iff)
  have u: "updated_codeowner_data ?r = [(''*'', [''alice'']), (''foo.py'', [''alice''])]"
    by code_simp
  have o: "optimized_codeowner_data ?r = [(''*'', [''alice''])]"
    by code_simp
  show ?thesis
    using h u o optimized_subset_keeps_star [OF h] by simp
qed

text \<open>
  C10. A file whose list of qualifying owners is empty gets no entry in the fresh ownership
  map, so an entry of the original manifest whose pattern is the path of that file is
  carried into the updated manifest with its original owner list.
\<close>

theorem empty_committers_keep_entry:
  assumes "codeowners_data_loop run_blame fs [] s = (Inr codeowners_data, s1)"
      and "fst (get_committers_for_file run_blame file s) = Inr []"
      and "distinct (map fst (original_codeowner_data s))"
      and "map_of (original_codeowner_data s) file = Some v"
    shows "map_of codeowners_data file = None
           \<and> check_files run_blame fs s = (Inr (), reconcile codeowners_data s1)
           \<and> map_of (updated_codeowner_data (reconcile codeowners_data s1)) file = Some v"
proof -
  have none: "map_of codeowners_data file = None"
    using codeowners_loop_skip [OF assms(1,2)] by simp
  have run: "check_files run_blame fs s = (Inr (), reconcile codeowners_data s1)"
    using assms(1) by (simp add: check_files_def)
  from codeowners_loop_state [OF assms(1)]
  have orig: "original_codeowner_data s1 = original_codeowner_data s"
    by auto
  have dcd: "distinct (map fst codeowners_data)"
    using codeowners_loop_keys [OF assms(1)] by simp
  have "map_of (updated_codeowner_data (reconcile codeowners_data s1)) file = Some v"
    using none assms(3,4)
    by (simp add: reconcile_fields(1) orig map_of_insert_fresh [OF dcd] map_of_carry_forward
        dict_get_def)
  with none run show ?thesis by simp
qed

theorem empty_committers_keep_entry_witness:
  "fst (codeowners_data_loop example_blame [''empty.py'', ''foo.py''] []
          (example_updater [''empty.py'', ''foo.py''] 25 [(''empty.py'', [''carol''])]))
     = Inr [(''foo.py'', [''alice''])]
   \<and> fst (get_committers_for_file example_blame ''empty.py''
            (example_updater [''empty.py'', ''foo.py''] 25 [(''empty.py'', [''carol''])]))
       = Inr []
   \<and> distinct (map fst (original_codeowner_data
         (example_updater [''empty.py'', ''foo.py''] 25 [(''empty.py'', [''carol''])])))
   \<and> map_of (original_codeowner_data
         (example_updater [''empty.py'', ''foo.py''] 25 [(''empty.py'', [''carol''])]))
         ''empty.py'' = Some [''carol'']
   \<and> map_of [(''foo.py'', [''alice''])] ''empty.py'' = None
   \<and> map_of (updated_codeowner_data
         (example_run [''empty.py'', ''foo.py''] 25 [(''empty.py'', [''carol''])])) ''empty.py''
       = Some [''carol'']"
proof -
  let ?s = "example_updater [''empty.py'', ''foo.py''] 25 [(''empty.py'', [''carol''])]"
  let ?l = "codeowners_data_loop example_blame [''empty.py'', ''foo.py''] [] ?s"
  have f: "fst ?l = Inr [(''foo.py'', [''alice''])]"
    by code_simp
  have h1: "?l = (Inr [(''foo.py'', [''alice''])], snd ?l)"
    using f by (simp add: prod_eq_iff)
  have h2: "fst (get_committers_for_file example_blame ''empty.py'' ?s) = Inr []"
    by code_simp
  have h3: "distinct (map fst (original_codeowner_data ?s))"
    by (simp add: example_updater_def)
  have h4: "map_of (original_codeowner_data ?s) ''empty.py'' = Some [''carol'']"
    by (simp add: example_updater_def)
  have r: "example_run [''empty.py'', ''foo.py''] 25 [(''empty.py'', [''carol''])]
             = reconcile [(''foo.py'', [''alice''])] (snd ?l)"
    using empty_committers_keep_entry [OF h1 h2 h3 h4] by (simp add: example_run_def)
  show ?thesis
    using f h2 h3 h4 empty_committers_keep_entry [OF h1 h2 h3 h4] by (simp add: r)
qed

text \<open>
  C5, as amended. For every manifest \<open>M\<close>, the reconciliation of \<open>M\<close> with no fresh
  ownership gives as optimized manifest the filter of Step C applied once to \<open>M\<close>. When the
  original manifest has an entry for \<^verbatim>\<open>*\<close> or no evaluated file has the path \<^verbatim>\<open>*\<close>,
  reconciling the updated manifest of a reconciliation with no fresh ownership gives the
  optimized manifest of that reconciliation again.
\<close>

theorem reconcile_idempotent:
  assumes "distinct (map fst (original_codeowner_data s))"
      and "updated_codeowner_data s = []"
      and "check_files run_blame fs s = (Inr u, s1)"
      and "''*'' \<in> set (map fst (original_codeowner_data s)) \<or> ''*'' \<notin> set fs"
      and "original_codeowner_data s2 = updated_codeowner_data s1"
      and "updated_codeowner_data s2 = []"
    shows "check_files run_blame [] s = (Inr (), reconcile [] s)
           \<and> optimized_codeowner_data (reconcile [] s) =
               optimize (dict_get (original_codeowner_data s) ''*'' [])
                 (original_codeowner_data s)
           \<and> check_files run_blame2 [] s2 = (Inr (), reconcile [] s2)
           \<and> optimized_codeowner_data (reconcile [] s2) = optimized_codeowner_data s1"
proof -
  let ?O = "original_codeowner_data s"
  from assms(3) obtain cd s0 where
    loop: "codeowners_data_loop run_blame fs [] s = (Inr cd, s0)" and s1: "s1 = reconcile cd s0"
    by (auto simp: check_files_def split: prod.splits sum.splits)
  from codeowners_loop_state [OF loop]
  have same: "original_codeowner_data s0 = ?O" "updated_codeowner_data s0 = []"
    using assms(2) by auto
  have dcd: "distinct (map fst cd)" and kcd: "set (map fst cd) \<subseteq> set fs"
    using codeowners_loop_keys [OF loop] by simp_all
  let ?A = "carry_forward ?O cd []"
  let ?splat = "dict_get ?A ''*'' []"
  let ?U = "insert_fresh ?splat cd ?A"
  have U: "updated_codeowner_data s1 = ?U" and P: "optimized_codeowner_data s1 = optimize ?splat ?U"
    by (simp_all add: s1 reconcile_fields same)
  have dU: "distinct (map fst ?U)"
    by (simp add: distinct_insert_fresh distinct_carry_forward)
  have star: "map_of ?U ''*'' = map_of ?A ''*''"
  proof (cases "map_of cd ''*''")
    case None
    then show ?thesis by (simp add: map_of_insert_fresh [OF dcd])
  next
    case (Some w)
    then have "(''*'', w) \<in> set cd"
      by (rule map_of_SomeD)
    then have "''*'' \<in> set (map fst cd)"
      by force
    with kcd have "''*'' \<in> set fs"
      by blast
    with assms(4) have "''*'' \<in> fst ` set ?O"
      by simp
    then have "map_of ?O ''*'' \<noteq> None"
      by (simp add: map_of_eq_None_iff)
    then obtain v where "map_of ?O ''*'' = Some v"
      by blast
    then have "map_of ?A ''*'' = Some w"
      using Some assms(1) by (simp add: map_of_carry_forward dict_get_def)
    then show ?thesis
      using Some by (simp add: map_of_insert_fresh [OF dcd])
  qed
  then have splat: "dict_get ?U ''*'' [] = ?splat"
    by (simp add: dict_get_def)
  have d2: "distinct (map fst (original_codeowner_data s2))"
    using dU by (simp add: assms(5) U)
  have "optimized_codeowner_data (reconcile [] s2) = optimized_codeowner_data s1"
    using reconcile_empty(2) [OF d2 assms(6)] by (simp add: assms(5) U P splat)
  then show ?thesis
    using reconcile_empty(2) [OF assms(1,2)] by (simp add: check_files_def)
qed

theorem reconcile_idempotent_witness:
  "distinct (map fst (original_codeowner_data
       (example_updater [''foo.py''] 25 [(''*'', [''alice'']), (''foo.py'', [''bob''])])))
   \<and> updated_codeowner_data
         (example_updater [''foo.py''] 25 [(''*'', [''alice'']), (''foo.py'', [''bob''])]) = []
   \<and> check_files example_blame [''foo.py'']
         (example_updater [''foo.py''] 25 [(''*'', [''alice'']), (''foo.py'', [''bob''])])
       = (Inr (), example_run [''foo.py''] 25 [(''*'', [''alice'']), (''foo.py'', [''bob''])])
   \<and> ''*'' \<in> set (map fst (original_codeowner_data
         (example_updater [''foo.py''] 25 [(''*'', [''alice'']), (''foo.py'', [''bob''])])))
   \<and> original_codeowner_data
         (example_updater [] 25 [(''*'', [''alice'']), (''foo.py'', [''alice''])])
       = updated_codeowner_data
           (example_run [''foo.py''] 25 [(''*'', [''alice'']), (''foo.py'', [''bob''])])
   \<and> updated_codeowner_data
         (example_updater [] 25 [(''*'', [''alice'']), (''foo.py'', [''alice''])]) = []
   \<and> optimized_codeowner_data
         (reconcile [] (example_updater [] 25 [(''*'', [''alice'']), (''foo.py'', [''alice''])]))
       = optimized_codeowner_data
           (example_run [''foo.py''] 25 [(''*'', [''alice'']), (''foo.py'', [''bob''])])
   \<and> optimized_codeowner_data
         (example_run [''foo.py''] 25 [(''*'', [''alice'']), (''foo.py'', [''bob''])])
       = [(''*'', [''alice''])]"
proof -
  let ?s = "example_updater [''foo.py''] 25 [(''*'', [''alice'']), (''foo.py'', [''bob''])]"
  let ?s1 = "example_run [''foo.py''] 25 [(''*'', [''alice'']), (''foo.py'', [''bob''])]"
  let ?s2 = "example_updater [] 25 [(''*'', [''alice'']), (''foo.py'', [''alice''])]"
  have h1: "distinct (map fst (original_codeowner_data ?s))"
    by (simp add: example_updater_def)
  have h2: "updated_codeowner_data ?s = []"
    by (simp add: example_updater_def)
  have f: "fst (check_files example_blame [''foo.py''] ?s) = Inr ()"
    by code_simp
  have h3: "check_files example_blame [''foo.py''] ?s = (Inr (), ?s1)"
    using f by (simp add: example_run_def prod_eq_iff)
  have h4: "''*'' \<in> set (map fst (original_codeowner_data ?s))"
    by (simp add: example_updater_def)
  have h4': "''*'' \<in> set (map fst (original_codeowner_data ?s)) \<or> ''*'' \<notin> set [''foo.py'']"
    using h4 by simp
  have h5: "original_codeowner_data ?s2 = updated_codeowner_data ?s1"
    by code_simp
  have h6: "updated_codeowner_data ?s2 = []"
    by (simp add: example_updater_def)
  have o: "optimized_codeowner_data ?s1 = [(''*'', [''alice''])]"
    by code_simp
  show ?thesis
    using h1 h2 h3 h4 h5 h6 o
      reconcile_idempotent [OF h1 h2 h3 h4' h5 h6, of example_blame]
    by simp
qed

text \<open>
  The claim as stated fails when a file with the path \<^verbatim>\<open>*\<close> is evaluated and the original
  manifest has no entry for \<^verbatim>\<open>*\<close>: the splat is read before the fresh entry for \<^verbatim>\<open>*\<close>
  is stored, so the first reconciliation keeps the entry of \<^verbatim>\<open>foo.py\<close>, and the
  reconciliation of its updated manifest with no fresh ownership drops it.
\<close>

theorem reconcile_not_idempotent_star_file_counterexample:
  "fst (check_files example_blame [''*''] (example_updater [''*''] 25 [(''foo.py'', [''alice''])]))
     = Inr ()
   \<and> updated_codeowner_data (example_run [''*''] 25 [(''foo.py'', [''alice''])])
       = [(''foo.py'', [''alice'']), (''*'', [''alice''])]
   \<and> optimized_codeowner_data (example_run [''*''] 25 [(''foo.py'', [''alice''])])
       = [(''foo.py'', [''alice'']), (''*'', [''alice''])]
   \<and> fst (check_files example_blame []
            (example_updater [] 25 [(''foo.py'', [''alice'']), (''*'', [''alice''])])) = Inr ()
   \<and> optimized_codeowner_data (example_run [] 25 [(''foo.py'', [''alice'']), (''*'', [''alice''])])
       = [(''*'', [''alice''])]"
  by code_simp

text \<open>
  C8, as amended. The run of \<^verbatim>\<open>CodeOwnersUpdater.main\<close> opens the manifest file for
  writing if and only if the optimized manifest differs from the original as a dict (the
  two differ in a key or in the owner list of a key); it then returns 1. When they are
  equal, nothing is written, the files on disk are as before and the run returns 0. This
  is the case in particular when every entry of the fresh ownership equals the entry of the
  original manifest for its pattern and no entry of the original manifest other than
  \<^verbatim>\<open>*\<close> shares an owner with the original entry for \<^verbatim>\<open>*\<close>.
\<close>

theorem rewritten_iff_different:
  assumes "codeowners_data_loop run_blame (files s) [] s = (Inr codeowners_data, s1)"
      and "distinct (map fst (original_codeowner_data s))"
      and "updated_codeowner_data s = []"
      and "\<not> updated s"
    shows "\<exists>s'. updater_main run_blame s =
                  (Inr (if dict_eq (optimized_codeowner_data s') (original_codeowner_data s)
                        then 0 else 1), s')
             \<and> (dict_eq (optimized_codeowner_data s') (original_codeowner_data s)
                  \<longleftrightarrow> map_of (optimized_codeowner_data s') = map_of (original_codeowner_data s))
             \<and> (writes s' \<noteq> writes s
                  \<longleftrightarrow> \<not> dict_eq (optimized_codeowner_data s') (original_codeowner_data s))
             \<and> (\<not> dict_eq (optimized_codeowner_data s') (original_codeowner_data s) \<longrightarrow>
                  writes s' = writes s @ [codeowners_file s] \<and> updated s'
                  \<and> disk s' = (disk s)(codeowners_file s \<mapsto>
                                 header @ map (\<lambda>(key, val). csv_writer_row (key # val))
                                            (optimized_codeowner_data s')))
             \<and> (dict_eq (optimized_codeowner_data s') (original_codeowner_data s) \<longrightarrow>
                  writes s' = writes s \<and> disk s' = disk s \<and> \<not> updated s')
             \<and> ((\<forall>k v. map_of codeowners_data k = Some v
                         \<longrightarrow> map_of (original_codeowner_data s) k = Some v)
                  \<and> (\<forall>(k, v)\<in>set (original_codeowner_data s).
                        k = ''*'' \<or> set v \<inter> set (dict_get (original_codeowner_data s) ''*'' []) = {})
                  \<longrightarrow> dict_eq (optimized_codeowner_data s') (original_codeowner_data s))"
proof -
  let ?s' = "reconcile codeowners_data s1"
  let ?O = "original_codeowner_data s"
  from codeowners_loop_state [OF assms(1)] obtain bc cl where
    s1: "s1 = s\<lparr>blame_cache := bc, blame_calls := cl\<rparr>" by blast
  have same: "original_codeowner_data s1 = ?O" "updated_codeowner_data s1 = []"
    "writes s1 = writes s" "disk s1 = disk s" "updated s1 = updated s"
    "codeowners_file s1 = codeowners_file s"
    using assms(3) by (simp_all add: s1)
  have dcd: "distinct (map fst codeowners_data)"
    using codeowners_loop_keys [OF assms(1)] by simp
  have dopt: "distinct (map fst (optimized_codeowner_data ?s'))"
    by (simp add: reconcile_fields same distinct_optimize distinct_insert_fresh
        distinct_carry_forward)
  have run: "updater_main run_blame s =
               (Inr (if dict_eq (optimized_codeowner_data ?s') ?O then 0 else 1), ?s')"
    using assms(1,4) reconcile_effect [of codeowners_data s1]
    by (auto simp: updater_main_def check_files_def same)
  have iff: "dict_eq (optimized_codeowner_data ?s') ?O
               \<longleftrightarrow> map_of (optimized_codeowner_data ?s') = map_of ?O"
    by (rule dict_eq_iff [OF dopt assms(2)])
  have neq: "\<not> dict_eq (optimized_codeowner_data ?s') ?O \<longrightarrow>
               writes ?s' = writes s @ [codeowners_file s] \<and> updated ?s'
               \<and> disk ?s' = (disk s)(codeowners_file s \<mapsto>
                               header @ map (\<lambda>(key, val). csv_writer_row (key # val))
                                          (optimized_codeowner_data ?s'))"
    using reconcile_effect(1) [of codeowners_data s1] by (simp add: same)
  have eq: "dict_eq (optimized_codeowner_data ?s') ?O \<longrightarrow>
              writes ?s' = writes s \<and> disk ?s' = disk s \<and> \<not> updated ?s'"
    using reconcile_effect(2) [of codeowners_data s1] assms(4) by (simp add: same)
  have wr: "writes ?s' \<noteq> writes s \<longleftrightarrow> \<not> dict_eq (optimized_codeowner_data ?s') ?O"
    using neq eq by auto
  have noop: "(\<forall>k v. map_of codeowners_data k = Some v \<longrightarrow> map_of ?O k = Some v)
              \<and> (\<forall>(k, v)\<in>set ?O. k = ''*'' \<or> set v \<inter> set (dict_get ?O ''*'' []) = {})
              \<longrightarrow> dict_eq (optimized_codeowner_data ?s') ?O"
  proof
    assume h: "(\<forall>k v. map_of codeowners_data k = Some v \<longrightarrow> map_of ?O k = Some v)
              \<and> (\<forall>(k, v)\<in>set ?O. k = ''*'' \<or> set v \<inter> set (dict_get ?O ''*'' []) = {})"
    have "optimized_codeowner_data ?s' = original_codeowner_data s1"
      using h by (intro reconcile_same) (simp_all add: same assms(2) dcd)
    then show "dict_eq (optimized_codeowner_data ?s') ?O"
      using iff by (simp add: same)
  qed
  show ?thesis
    using run iff wr neq eq noop by blast
qed

theorem rewritten_iff_different_witness:
  "fst (codeowners_data_loop example_blame
          (files (example_updater [''foo.py''] 25 [(''foo.py'', [''alice''])])) []
          (example_updater [''foo.py''] 25 [(''foo.py'', [''alice''])]))
     = Inr [(''foo.py'', [''alice''])]
   \<and> distinct (map fst (original_codeowner_data
         (example_updater [''foo.py''] 25 [(''foo.py'', [''alice''])])))
   \<and> updated_codeowner_data (example_updater [''foo.py''] 25 [(''foo.py'', [''alice''])]) = []
   \<and> \<not> updated (example_updater [''foo.py''] 25 [(''foo.py'', [''alice''])])
   \<and> fst (updater_main example_blame (example_updater [''foo.py''] 25 [(''foo.py'', [''alice''])]))
       = Inr 0
   \<and> writes (snd (updater_main example_blame
         (example_updater [''foo.py''] 25 [(''foo.py'', [''alice''])]))) = []
   \<and> dict_eq (optimized_codeowner_data (snd (updater_main example_blame
         (example_updater [''foo.py''] 25 [(''foo.py'', [''alice''])]))))
       [(''foo.py'', [''alice''])]"
proof -
  let ?s = "example_updater [''foo.py''] 25 [(''foo.py'', [''alice''])]"
  let ?l = "codeowners_data_loop example_blame (files ?s) [] ?s"
  have f: "fst ?l = Inr [(''foo.py'', [''alice''])]"
    by code_simp
  have h1: "?l = (Inr [(''foo.py'', [''alice''])], snd ?l)"
    using f by (simp add: prod_eq_iff)
  have h2: "distinct (map fst (original_codeowner_data ?s))"
    by (simp add: example_updater_def)
  have h3: "updated_codeowner_data ?s = []"
    by (simp add: example_updater_def)
  have h4: "\<not> updated ?s"
    by (simp add: example_updater_def)
  have o: "original_codeowner_data ?s = [(''foo.py'', [''alice''])]" "writes ?s = []"
    by (simp_all add: example_updater_def)
  have m: "(\<forall>k v. map_of [(''foo.py'', [''alice''])] k = Some v
              \<longrightarrow> map_of (original_codeowner_data ?s) k = Some v)
           \<and> (\<forall>(k, v)\<in>set (original_codeowner_data ?s).
                 k = ''*'' \<or> set v \<inter> set (dict_get (original_codeowner_data ?s) ''*'' []) = {})"
    by (simp add: o dict_get_def)
  from rewritten_iff_different [OF h1 h2 h3 h4] m obtain s' where
    "updater_main example_blame ?s =
       (Inr (if dict_eq (optimized_codeowner_data s') (original_codeowner_data ?s)
             then 0 else 1), s')"
    "dict_eq (optimized_codeowner_data s') (original_codeowner_data ?s)"
    "writes s' = writes ?s"
    by blast
  with f h2 h3 h4 show ?thesis
    by (simp add: o)
qed

text \<open>
  The claim as stated fails when the original manifest has an entry that shares an owner
  with its entry for \<^verbatim>\<open>*\<close>: the fresh owners of \<^verbatim>\<open>foo.py\<close> are the owners the manifest
  already lists for it, the optimization drops the entry, and the file is written.
\<close>

theorem matching_fresh_ownership_rewritten_counterexample:
  "fst (codeowners_data_loop example_blame [''foo.py''] []
          (example_updater [''foo.py''] 25 [(''*'', [''alice'']), (''foo.py'', [''alice''])]))
     = Inr [(''foo.py'', [''alice''])]
   \<and> map_of (original_codeowner_data
         (example_updater [''foo.py''] 25 [(''*'', [''alice'']), (''foo.py'', [''alice''])]))
         ''foo.py'' = Some [''alice'']
   \<and> fst (updater_main example_blame
         (example_updater [''foo.py''] 25 [(''*'', [''alice'']), (''foo.py'', [''alice''])]))
       = Inr 1
   \<and> optimized_codeowner_data (snd (updater_main example_blame
         (example_updater [''foo.py''] 25 [(''*'', [''alice'']), (''foo.py'', [''alice''])])))
       = [(''*'', [''alice''])]
   \<and> writes (snd (updater_main example_blame
         (example_updater [''foo.py''] 25 [(''*'', [''alice'']), (''foo.py'', [''alice''])])))
       = [''CODEOWNERS'']"
  by code_simp

section \<open>The blame cache\<close>

text \<open>
  C9. The lookup of the blame text is memoized per path. From a state in which every path
  \<^verbatim>\<open>git blame\<close> was invoked for is cached, a run of \<^verbatim>\<open>check_files\<close>, whether it returns or
  stops at a failure, invokes \<^verbatim>\<open>git blame\<close> at most once for each path; a lookup that
  returned a text returns the same text again without another invocation; and
  \<^verbatim>\<open>get_committers_for_file\<close> invokes \<^verbatim>\<open>git blame\<close> once if the path is not cached and
  the alias table is not empty, and not at all otherwise, however many identities the
  alias table holds.
\<close>

theorem blame_invoked_once_per_path:
  assumes "calls_cached s"
  shows "distinct (blame_calls (snd (check_files run_blame fs s)))
         \<and> (\<forall>f c t t1. get_blame_file_content run_blame f t = (Inr c, t1) \<longrightarrow>
                get_blame_file_content run_blame f t1 = (Inr c, t1))
         \<and> (\<forall>f t. blame_calls (snd (get_committers_for_file run_blame f t)) =
                blame_calls t @
                  (if owners t \<noteq> [] \<and> map_of (blame_cache t) f = None then [f] else []))"
proof -
  obtain r s1 where l: "codeowners_data_loop run_blame fs [] s = (r, s1)"
    by (cases "codeowners_data_loop run_blame fs [] s")
  have "distinct (blame_calls (snd (check_files run_blame fs s)))"
    using codeowners_loop_calls_inv [OF assms l] l
    by (cases r) (auto simp: check_files_def reconcile_fields calls_cached_def)
  moreover have "get_blame_file_content run_blame f t1 = (Inr c, t1)"
    if "get_blame_file_content run_blame f t = (Inr c, t1)" for f c t t1
    using blame_hit [OF blame_ok_state(1) [OF that]] .
  moreover have "blame_calls (snd (get_committers_for_file run_blame f t)) =
                blame_calls t @
                  (if owners t \<noteq> [] \<and> map_of (blame_cache t) f = None then [f] else [])" for f t
    by (auto simp: committers_final_state get_blame_file_content_def split: option.splits)
  ultimately show ?thesis by blast
qed

theorem blame_invoked_once_per_path_witness:
  "calls_cached (example_updater [''foo.py'', ''empty.py'', ''foo.py''] 25 [])
   \<and> blame_calls (snd (check_files example_blame [''foo.py'', ''empty.py'', ''foo.py'']
         (example_updater [''foo.py'', ''empty.py'', ''foo.py''] 25 [])))
       = [''foo.py'', ''empty.py'']
   \<and> distinct (blame_calls (snd (check_files example_blame [''foo.py'', ''empty.py'', ''foo.py'']
         (example_updater [''foo.py'', ''empty.py'', ''foo.py''] 25 []))))"
proof -
  let ?s = "example_updater [''foo.py'', ''empty.py'', ''foo.py''] 25 []"
  have h: "calls_cached ?s"
    by (simp add: calls_cached_def example_updater_def)
  have c: "blame_calls (snd (check_files example_blame [''foo.py'', ''empty.py'', ''foo.py''] ?s))
             = [''foo.py'', ''empty.py'']"
    by code_simp
  show ?thesis
    using h c blame_invoked_once_per_path [OF h, of example_blame "[''foo.py'', ''empty.py'', ''foo.py'']"]
    by simp
qed

section \<open>Loading the manifest and the exit status\<close>

text \<open>
  C4. The claim says that every line beginning with \<^verbatim>\<open>#\<close> is skipped. The source skips a
  row only when its first field is exactly \<^verbatim>\<open>#\<close>: the line \<^verbatim>\<open>#comment alice\<close> is loaded
  as the pattern \<^verbatim>\<open>#comment\<close> with the owner \<^verbatim>\<open>alice\<close>, while the line
  \<^verbatim>\<open># comment alice\<close> and the empty line are skipped.
\<close>

theorem hash_prefixed_pattern_not_skipped:
  "csv_reader_row ''#comment alice'' = [''#comment'', ''alice'']
   \<and> load_rows (map csv_reader_row [''#comment alice'']) [] = [(''#comment'', [''alice''])]
   \<and> load_rows (map csv_reader_row [''# comment alice'', []]) [] = []
   \<and> map_sum id original_codeowner_data
        (init [] [] 25 ''CODEOWNERS'' [''CODEOWNERS'' \<mapsto> [''#comment alice'', ''* bob'']])
       = Inr [(''#comment'', [''alice'']), (''*'', [''bob''])]"
  by code_simp

text \<open>
  C1. The claim says that the status of the process is 1 exactly when the manifest was
  rewritten. The method \<^verbatim>\<open>CodeOwnersUpdater.main\<close> returns 1 then, but the function
  \<^verbatim>\<open>main\<close> of the module drops that value: on a run that rewrites the manifest, with the
  debug flag unset, \<^verbatim>\<open>main\<close> returns \<^verbatim>\<open>None\<close> and the status of the process is 0.
\<close>

theorem exit_status_ignores_change:
  "map_sum id (\<lambda>codeowners. fst (updater_main example_blame codeowners))
       (init [''foo.py''] example_owners 25 ''CODEOWNERS'' [''CODEOWNERS'' \<mapsto> []])
     = Inr (Inr 1)
   \<and> fst (main example_blame [] (Table example_owners) [''CODEOWNERS'' \<mapsto> []]
         \<lparr>filenames = [''foo.py''], ownership_threshold_arg = NoText,
          codeowners_filename_arg = None, debug = False\<rparr>) = Inr None
   \<and> snd (main example_blame [] (Table example_owners) [''CODEOWNERS'' \<mapsto> []]
         \<lparr>filenames = [''foo.py''], ownership_threshold_arg = NoText,
          codeowners_filename_arg = None, debug = False\<rparr>) ''CODEOWNERS''
       = Some (header @ [''foo.py alice''])
   \<and> sys_exit (fst (main example_blame [] (Table example_owners) [''CODEOWNERS'' \<mapsto> []]
         \<lparr>filenames = [''foo.py''], ownership_threshold_arg = NoText,
          codeowners_filename_arg = None, debug = False\<rparr>)) = 0"
  by code_simp

end
